theory Spec2Isabelle
  imports
    Complex_Main
    "HOL-Library.Char_ord"
    "HOL-Library.List_Lexorder"
    "HOL-Library.Multiset"
begin

section \<open>The controller of the highlights catalogue\<close>

text \<open>
  A shallow embedding of \<^verbatim>\<open>src/groupietracker/main.go\<close> (package \<^verbatim>\<open>controller\<close>):
  the match cache (\<^verbatim>\<open>fetchMatches\<close>, \<^verbatim>\<open>cloneMatches\<close>), the normaliser
  (\<^verbatim>\<open>normalizeMatches\<close>), the query pipeline (\<^verbatim>\<open>filterMatches\<close>, \<^verbatim>\<open>paginate\<close>, the
  title lookup of \<^verbatim>\<open>DetailHandler\<close>) and the cookie-backed favourites
  (\<^verbatim>\<open>getFavorites\<close>, \<^verbatim>\<open>saveFavorites\<close>, \<^verbatim>\<open>ToggleFavoriteHandler\<close>).

  Go strings are byte sequences, here \<^typ>\<open>string\<close>. The functions of Go's \<^verbatim>\<open>strings\<close>
  package that work on bytes (\<^verbatim>\<open>Contains\<close>, \<^verbatim>\<open>Split\<close>, \<^verbatim>\<open>SplitN\<close>, \<^verbatim>\<open>Join\<close>) are defined on
  all strings. Those that consult the Unicode tables (\<^verbatim>\<open>ToLower\<close>, \<^verbatim>\<open>TrimSpace\<close>,
  \<^verbatim>\<open>Fields\<close>, \<^verbatim>\<open>EqualFold\<close>) are parameters of the controller wherever it applies them to
  upstream strings or to the title of the detail view, which are arbitrary UTF-8; their
  definitions below are what they compute on strings of ASCII bytes. \<open>TrimSpace\<close> is
  used directly on cookie values, where \<^verbatim>\<open>net/http\<close> admits no other bytes, and on the
  title of the favourite toggle, of which only what holds of ASCII white space is stated.
  Go's \<^verbatim>\<open>int\<close> is taken as the 64-bit two's complement integer; arithmetic on it is
  written on \<^typ>\<open>int\<close> with the wrap-around spelled out.
\<close>

subsection \<open>The functions of Go's \<^verbatim>\<open>strings\<close> package that the controller calls\<close>

text \<open>
  \<^verbatim>\<open>unicode.IsSpace\<close>, \<^verbatim>\<open>ToLower\<close>, \<^verbatim>\<open>TrimSpace\<close>, \<^verbatim>\<open>Fields\<close> and \<^verbatim>\<open>EqualFold\<close> on strings of
  ASCII bytes (below \<^verbatim>\<open>0x80\<close>).
\<close>

definition isSpace :: "char \<Rightarrow> bool" where
  "isSpace c =
     (c = CHR 0x09 \<or> c = CHR 0x0A \<or> c = CHR 0x0B \<or> c = CHR 0x0C \<or> c = CHR 0x0D \<or> c = CHR 0x20)"

definition toLowerChar :: "char \<Rightarrow> char" where
  "toLowerChar c =
     (if CHR ''A'' \<le> c \<and> c \<le> CHR ''Z'' then char_of (of_char c + (32::nat)) else c)"

definition ToLower :: "string \<Rightarrow> string" where
  "ToLower s = map toLowerChar s"

definition TrimSpace :: "string \<Rightarrow> string" where
  "TrimSpace s = rev (dropWhile isSpace (rev (dropWhile isSpace s)))"

text \<open>\<^verbatim>\<open>strings.HasPrefix\<close> and \<^verbatim>\<open>strings.Contains\<close>: a contiguous occurrence.\<close>

fun HasPrefix :: "string \<Rightarrow> string \<Rightarrow> bool" where
  "HasPrefix s [] = True"
| "HasPrefix [] (p # ps) = False"
| "HasPrefix (c # cs) (p # ps) = (c = p \<and> HasPrefix cs ps)"

fun Contains :: "string \<Rightarrow> string \<Rightarrow> bool" where
  "Contains [] sub = (sub = [])"
| "Contains (c # cs) sub = (HasPrefix (c # cs) sub \<or> Contains cs sub)"

text \<open>
  Cutting a string at every byte that satisfies \<open>P\<close>: the pieces between the cuts, empty
  pieces included, so there is always one piece more than there are cuts.
\<close>

fun pieces :: "(char \<Rightarrow> bool) \<Rightarrow> string \<Rightarrow> string list" where
  "pieces P [] = [[]]"
| "pieces P (c # cs) =
     (if P c then [] # pieces P cs
      else (case pieces P cs of
              [] \<Rightarrow> [[c]]
            | p # ps \<Rightarrow> (c # p) # ps))"

text \<open>\<^verbatim>\<open>strings.Split(s, sep)\<close> for a separator of one byte.\<close>

definition Split :: "string \<Rightarrow> char \<Rightarrow> string list" where
  "Split s sep = pieces (\<lambda>c. c = sep) s"

text \<open>\<^verbatim>\<open>strings.SplitN(s, sep, 2)\<close> for a separator of one byte: cut at the first one only.\<close>

definition SplitN2 :: "string \<Rightarrow> char \<Rightarrow> string list" where
  "SplitN2 s sep =
     (if sep \<in> set s
      then [takeWhile (\<lambda>c. c \<noteq> sep) s, tl (dropWhile (\<lambda>c. c \<noteq> sep) s)]
      else [s])"

text \<open>\<^verbatim>\<open>strings.Fields\<close>: the maximal runs of bytes that are not white space.\<close>

definition Fields :: "string \<Rightarrow> string list" where
  "Fields s = filter (\<lambda>w. w \<noteq> []) (pieces isSpace s)"

fun Join :: "string list \<Rightarrow> string \<Rightarrow> string" where
  "Join [] sep = []"
| "Join [x] sep = x"
| "Join (x # y # ys) sep = x @ sep @ Join (y # ys) sep"

definition EqualFold :: "string \<Rightarrow> string \<Rightarrow> bool" where
  "EqualFold s t = (ToLower s = ToLower t)"

subsection \<open>The library functions the controller takes as given\<close>

text \<open>
  What these functions compute on arbitrary UTF-8 (and on bytes that are not UTF-8) is
  fixed by tables that are not part of the controller. The controller is therefore
  modelled over a \<open>library\<close>: \<open>timeParse\<close> stands for \<^verbatim>\<open>time.Parse(time.RFC3339, _)\<close>
  followed by \<^verbatim>\<open>Format("02 Jan 2006 15:04")\<close> (\<open>None\<close> when the date does not parse),
  \<open>queryUnescape\<close> for \<^verbatim>\<open>url.QueryUnescape\<close> (\<open>None\<close> when it reports an error), and the
  other four for \<^verbatim>\<open>strings.ToLower\<close>, \<^verbatim>\<open>strings.TrimSpace\<close>, \<^verbatim>\<open>strings.Fields\<close> and
  \<^verbatim>\<open>strings.EqualFold\<close>. Nothing is assumed of them.
\<close>

record library =
  timeParse :: "string \<Rightarrow> string option"
  queryUnescape :: "string \<Rightarrow> string option"
  toLower :: "string \<Rightarrow> string"
  trimSpace :: "string \<Rightarrow> string"
  splitFields :: "string \<Rightarrow> string list"
  equalFold :: "string \<Rightarrow> string \<Rightarrow> bool"

text \<open>The date parser on inputs that are not RFC 3339 dates: it rejects them.\<close>

definition rejectDate :: "string \<Rightarrow> string option" where
  "rejectDate s = None"

text \<open>\<^verbatim>\<open>url.QueryUnescape\<close> on a string with neither \<^verbatim>\<open>%\<close> nor \<^verbatim>\<open>+\<close>: the string itself.\<close>

definition plainUnescape :: "string \<Rightarrow> string option" where
  "plainUnescape s = Some s"

text \<open>
  The library on strings of ASCII bytes that are not RFC 3339 dates and hold neither
  \<^verbatim>\<open>%\<close> nor \<^verbatim>\<open>+\<close>: the inputs of the examples below are of this kind.
\<close>

definition asciiLib :: library where
  "asciiLib =
     \<lparr>timeParse = rejectDate, queryUnescape = plainUnescape, toLower = ToLower,
      trimSpace = TrimSpace, splitFields = Fields, equalFold = EqualFold\<rparr>"

subsection \<open>Constants and the match record\<close>

definition pageSize :: int where
  "pageSize = 9"

text \<open>\<^verbatim>\<open>cacheTTL = 2 * time.Minute\<close>, a \<^verbatim>\<open>time.Duration\<close> in nanoseconds.\<close>

definition cacheTTL :: int where
  "cacheTTL = 2 * 60 * 1000000000"

record Video =
  VideoTitle :: string
  Embed :: string

record Match =
  Title :: string
  Competition :: string
  MatchviewURL :: string
  Thumbnail :: string
  DateRaw :: string
  Videos :: "Video list"
  PrettyDate :: string
  EmbedHTML :: string
  IsFavorite :: bool
  Category :: string

text \<open>
  A record as the JSON decoder leaves it: the fields tagged \<^verbatim>\<open>json:"-"\<close> keep their zero
  values.
\<close>

definition decoded :: "string \<Rightarrow> string \<Rightarrow> string \<Rightarrow> Match" where
  "decoded title competition date =
     \<lparr>Title = title, Competition = competition, MatchviewURL = [], Thumbnail = [],
      DateRaw = date, Videos = [], PrettyDate = [], EmbedHTML = [], IsFavorite = False,
      Category = []\<rparr>"

subsection \<open>\<^verbatim>\<open>normalizeMatches\<close>\<close>

text \<open>The body of the loop of \<^verbatim>\<open>normalizeMatches\<close> on one record.\<close>

definition normalizeMatch :: "library \<Rightarrow> Match \<Rightarrow> Match" where
  "normalizeMatch lib m =
     (let m1 = (case timeParse lib (DateRaw m) of
                  Some t \<Rightarrow> m\<lparr>PrettyDate := t\<rparr>
                | None \<Rightarrow> m\<lparr>PrettyDate := DateRaw m\<rparr>);
          parts = SplitN2 (Competition m1) CHR '':''
      in if length parts > 0
         then m1\<lparr>Category := trimSpace lib (toLower lib (parts ! 0))\<rparr>
         else m1)"

text \<open>
  \<^verbatim>\<open>sort.Slice\<close> with \<^verbatim>\<open>matches[i].DateRaw > matches[j].DateRaw\<close>: descending in the raw
  date, compared bytewise. \<^verbatim>\<open>sort.Slice\<close> promises no order among records of equal date;
  the model fixes one, and nothing proved below depends on it.
\<close>

definition sortByDateDesc :: "Match list \<Rightarrow> Match list" where
  "sortByDateDesc ms = rev (sort_key DateRaw ms)"

definition normalizeMatches :: "library \<Rightarrow> Match list \<Rightarrow> Match list" where
  "normalizeMatches lib ms = sortByDateDesc (map (normalizeMatch lib) ms)"

subsection \<open>\<^verbatim>\<open>filterMatches\<close>\<close>

fun filterLoop :: "library \<Rightarrow> string \<Rightarrow> string \<Rightarrow> Match list \<Rightarrow> Match list" where
  "filterLoop lib q c [] = []"
| "filterLoop lib q c (m # ms) =
     (if q \<noteq> [] \<and> \<not> Contains (toLower lib (Title m)) q
           \<and> \<not> Contains (toLower lib (Competition m)) q
      then filterLoop lib q c ms
      else if c \<noteq> [] \<and> Category m \<noteq> [] \<and> \<not> Contains (Category m) c
      then filterLoop lib q c ms
      else m # filterLoop lib q c ms)"

definition filterMatches :: "library \<Rightarrow> Match list \<Rightarrow> string \<Rightarrow> string \<Rightarrow> Match list" where
  "filterMatches lib matches query category =
     (if query = [] \<and> category = [] then matches
      else filterLoop lib (toLower lib query) (toLower lib category) matches)"

subsection \<open>\<^verbatim>\<open>paginate\<close>\<close>

text \<open>
  Go's \<^verbatim>\<open>int\<close>: the result of \<^verbatim>\<open>+\<close>, \<^verbatim>\<open>-\<close> and \<^verbatim>\<open>*\<close> wraps around modulo \<open>2 ^ 64\<close>, and \<^verbatim>\<open>/\<close>
  truncates towards zero. Division by zero panics in Go; \<^verbatim>\<open>paginate\<close> replaces a size that
  is not positive before it divides, so \<open>quo\<close> is only ever applied to a positive divisor.
\<close>

definition maxInt :: int where
  "maxInt = 2 ^ 63 - 1"

definition minInt :: int where
  "minInt = - (2 ^ 63)"

definition wrap64 :: "int \<Rightarrow> int" where
  "wrap64 x = (x + 2 ^ 63) mod 2 ^ 64 - 2 ^ 63"

definition quo :: "int \<Rightarrow> int \<Rightarrow> int" where
  "quo a b = wrap64 (sgn a * sgn b * (\<bar>a\<bar> div \<bar>b\<bar>))"

datatype panic = SliceBoundsOutOfRange

text \<open>
  The slice expression \<^verbatim>\<open>xs[lo:hi]\<close>, which panics unless \<open>0 \<le> lo \<le> hi \<le> cap\<close>. The list
  stands for a slice whose capacity is its length; \<^verbatim>\<open>paginate\<close> never asks for more.
\<close>

definition subslice :: "'a list \<Rightarrow> int \<Rightarrow> int \<Rightarrow> panic + 'a list" where
  "subslice xs lo hi =
     (if 0 \<le> lo \<and> lo \<le> hi \<and> hi \<le> int (length xs)
      then Inr (take (nat (hi - lo)) (drop (nat lo) xs))
      else Inl SliceBoundsOutOfRange)"

text \<open>The page count of \<^verbatim>\<open>paginate\<close>, and the page it works with after the two clamps.\<close>

definition totalPagesOf :: "int \<Rightarrow> int \<Rightarrow> int" where
  "totalPagesOf n sz =
     (let totalPages = quo (wrap64 (wrap64 (n + sz) - 1)) sz
      in if totalPages = 0 then 1 else totalPages)"

definition effectivePage :: "int \<Rightarrow> int \<Rightarrow> int" where
  "effectivePage page totalPages =
     (let p = (if page < 1 then 1 else page)
      in if p > totalPages then totalPages else p)"

definition paginate :: "Match list \<Rightarrow> int \<Rightarrow> int \<Rightarrow> panic + (Match list \<times> int \<times> int \<times> int)" where
  "paginate matches page0 size0 =
     (let n = int (length matches);
          sz = (if size0 \<le> 0 then pageSize else size0);
          totalPages = totalPagesOf n sz;
          page = effectivePage page0 totalPages;
          start0 = wrap64 (wrap64 (page - 1) * sz);
          end0 = wrap64 (start0 + sz);
          start = (if start0 > n then n else start0);
          endIdx = (if end0 > n then n else end0);
          prevPage = (if page > 1 then wrap64 (page - 1) else 0);
          nextPage = (if page < totalPages then wrap64 (page + 1) else 0)
      in case subslice matches start endIdx of
           Inl e \<Rightarrow> Inl e
         | Inr paged \<Rightarrow> Inr (paged, totalPages, prevPage, nextPage))"

subsection \<open>The title lookup of \<^verbatim>\<open>DetailHandler\<close>\<close>

text \<open>
  The two ways in which the upstream fetch fails (the \<^verbatim>\<open>Get\<close>, the decoding), and the
  errors the handlers answer with.
\<close>

datatype fetchError = UpstreamUnreachable | UpstreamMalformed

datatype httpError = BadRequest | NotFound | InternalServerError

text \<open>
  The search loop of \<^verbatim>\<open>DetailHandler\<close>: one pass over the records; each record is tested
  for equality and then for equality after case folding and white-space collapsing, and
  the first record that passes either test ends the loop.
\<close>

fun findMatch :: "library \<Rightarrow> string \<Rightarrow> Match list \<Rightarrow> Match option" where
  "findMatch lib title [] = None"
| "findMatch lib title (m # ms) =
     (if Title m = title then Some m
      else if equalFold lib (Join (splitFields lib (Title m)) '' '') (Join (splitFields lib title) '' '')
      then Some m
      else findMatch lib title ms)"

text \<open>
  The markup shown for a record with no video; the quotation marks and the \<^verbatim>\<open>e\<close> with
  acute accent (two bytes in UTF-8) are written by their codes.
\<close>

definition fallbackEmbed :: string where
  "fallbackEmbed =
     ''<p style='' @ [CHR 0x22] @ ''padding: 20px; text-align: center; color: #666;''
       @ [CHR 0x22] @ ''>Aucune vid'' @ [CHR 0xC3, CHR 0xA9] @ ''o disponible pour ce match.</p>''"

text \<open>
  The title \<^verbatim>\<open>DetailHandler\<close> looks for: the raw parameter is used when unescaping it
  fails.
\<close>

definition requestedTitle :: "library \<Rightarrow> string \<Rightarrow> string" where
  "requestedTitle lib titleRaw =
     (case queryUnescape lib titleRaw of
        None \<Rightarrow> trimSpace lib titleRaw
      | Some title \<Rightarrow> trimSpace lib title)"

text \<open>
  \<^verbatim>\<open>DetailHandler\<close>: from the \<^verbatim>\<open>title\<close> query parameter and what \<^verbatim>\<open>loadMatchesWithFavorites\<close>
  returned (an error, or the records) to the record it renders, or the HTTP error it
  answers with.
\<close>

definition DetailHandler ::
  "library \<Rightarrow> string \<Rightarrow> fetchError + Match list \<Rightarrow> httpError + Match" where
  "DetailHandler lib titleRaw loaded =
     (if titleRaw = [] then Inl BadRequest
      else
        (case loaded of
           Inl err \<Rightarrow> Inl InternalServerError
         | Inr matches \<Rightarrow>
             (case findMatch lib (requestedTitle lib titleRaw) matches of
                None \<Rightarrow> Inl NotFound
              | Some m \<Rightarrow>
                  Inr (m\<lparr>EmbedHTML :=
                         (case Videos m of [] \<Rightarrow> fallbackEmbed | v # vs \<Rightarrow> Embed v)\<rparr>))))"

subsection \<open>Favourites\<close>

text \<open>
  The Go map \<^verbatim>\<open>map[string]bool\<close>. Reading a missing key gives \<^verbatim>\<open>false\<close>.
\<close>

type_synonym favorites = "string \<rightharpoonup> bool"

definition isFav :: "favorites \<Rightarrow> string \<Rightarrow> bool" where
  "isFav favs title = (case favs title of None \<Rightarrow> False | Some b \<Rightarrow> b)"

text \<open>
  \<^verbatim>\<open>getFavorites\<close>: the cookie value is \<open>None\<close> when the request carries no cookie named
  \<^verbatim>\<open>favorites\<close>. A cookie value holds bytes from \<^verbatim>\<open>0x20\<close> to \<^verbatim>\<open>0x7E\<close> only (\<^verbatim>\<open>net/http\<close> drops
  a cookie with any other), so \<^verbatim>\<open>strings.TrimSpace\<close> on its segments is \<open>TrimSpace\<close>.
\<close>

definition addTitle :: "string \<Rightarrow> favorites \<Rightarrow> favorites" where
  "addTitle segment favs =
     (let title = TrimSpace segment in if title \<noteq> [] then favs(title \<mapsto> True) else favs)"

definition getFavorites :: "string option \<Rightarrow> favorites" where
  "getFavorites cookie =
     (case cookie of
        None \<Rightarrow> Map.empty
      | Some v \<Rightarrow> fold addTitle (Split v CHR ''|'') Map.empty)"

text \<open>
  \<^verbatim>\<open>saveFavorites\<close>: the \<^verbatim>\<open>Value\<close> of the cookie it hands to \<^verbatim>\<open>http.SetCookie\<close>. The keys
  of the map are collected, sorted by \<^verbatim>\<open>sort.Strings\<close> (bytewise) and joined.
\<close>

definition saveFavorites :: "favorites \<Rightarrow> string" where
  "saveFavorites favs = Join (sorted_list_of_set (dom favs)) ''|''"

text \<open>The toggle of \<^verbatim>\<open>ToggleFavoriteHandler\<close> on the map.\<close>

definition toggleFavorite :: "string \<Rightarrow> favorites \<Rightarrow> favorites" where
  "toggleFavorite title favs = (if isFav favs title then favs(title := None) else favs(title \<mapsto> True))"



subsection \<open>The match cache\<close>

text \<open>
  Slices share backing arrays, and the cache hands out slices, so arrays live in an
  explicit store: a slice is the address of its array and its length, and the store maps
  an address to the elements of the array there. \<open>nextAddr\<close> is the first address never
  allocated. The package variables \<^verbatim>\<open>cachedAt\<close> and \<^verbatim>\<open>cachedMatch\<close> are fields of the state;
  \<open>upstreamCalls\<close> counts the calls of \<^verbatim>\<open>httpClient.Get\<close> made so far. Times are readings
  of the clock in nanoseconds.
\<close>

type_synonym addr = nat

record slice =
  arr :: addr
  len :: nat

record state =
  heap :: "addr \<Rightarrow> Match list"
  nextAddr :: addr
  cachedAt :: int
  cachedMatch :: slice
  upstreamCalls :: nat

definition readSlice :: "state \<Rightarrow> slice \<Rightarrow> Match list" where
  "readSlice st s = take (len s) (heap st (arr s))"

text \<open>A new array holding \<open>xs\<close>, and the slice of all of it.\<close>

definition alloc :: "Match list \<Rightarrow> state \<Rightarrow> slice \<times> state" where
  "alloc xs st =
     (\<lparr>arr = nextAddr st, len = length xs\<rparr>,
      st\<lparr>heap := (heap st)(nextAddr st := xs), nextAddr := Suc (nextAddr st)\<rparr>)"

text \<open>\<^verbatim>\<open>cloneMatches\<close>: \<^verbatim>\<open>make\<close> a new array of \<^verbatim>\<open>len(src)\<close> elements and \<^verbatim>\<open>copy\<close> into it.\<close>

definition cloneMatches :: "slice \<Rightarrow> state \<Rightarrow> slice \<times> state" where
  "cloneMatches src st = alloc (readSlice st src) st"

text \<open>Writing \<open>f\<close> of each element of a slice back into its array, as a loop over the indices does.\<close>

definition updateSlice :: "(Match \<Rightarrow> Match) \<Rightarrow> slice \<Rightarrow> state \<Rightarrow> state" where
  "updateSlice f s st =
     st\<lparr>heap := (heap st)(arr s := map f (take (len s) (heap st (arr s))) @ drop (len s) (heap st (arr s)))\<rparr>"

text \<open>
  The zero \<^verbatim>\<open>time.Time\<close>, the value of \<^verbatim>\<open>cachedAt\<close> before the first successful fetch, lies
  further than any \<^verbatim>\<open>Duration\<close> before every reading of the clock. \<^verbatim>\<open>time.Since\<close> saturates
  at the bounds of \<^verbatim>\<open>Duration\<close>.
\<close>

definition zeroTime :: int where
  "zeroTime = - (2 ^ 65)"

definition since :: "int \<Rightarrow> int \<Rightarrow> int" where
  "since now t = max minInt (min maxInt (now - t))"

definition initState :: state where
  "initState =
     \<lparr>heap = (\<lambda>a. []), nextAddr = 1, cachedAt = zeroTime, cachedMatch = \<lparr>arr = 0, len = 0\<rparr>,
      upstreamCalls = 0\<rparr>"

text \<open>
  What one call of \<^verbatim>\<open>fetchMatches\<close> meets: the clock when it tests the age of the cache,
  the answer of the upstream to a \<^verbatim>\<open>Get\<close> (should the call make one), and the clock when it
  stamps the new snapshot.
\<close>

datatype upstream = GetFailed | DecodeFailed | Decoded "Match list"

record call =
  tCheck :: int
  reply :: upstream
  tStore :: int

text \<open>The test \<^verbatim>\<open>time.Since(cachedAt) < cacheTTL && len(cachedMatch) > 0\<close>.\<close>

definition fresh :: "int \<Rightarrow> state \<Rightarrow> bool" where
  "fresh now st = (since now (cachedAt st) < cacheTTL \<and> len (cachedMatch st) > 0)"

text \<open>
  The refresh, from the answer of the upstream on: the decoder allocates the array of
  \<^verbatim>\<open>apiResp.Response\<close>, \<^verbatim>\<open>normalizeMatches\<close> rewrites it in place, the package variables
  are assigned, and a clone is returned.
\<close>

definition refresh ::
  "library \<Rightarrow> upstream \<Rightarrow> int \<Rightarrow> state \<Rightarrow> (fetchError + slice) \<times> state" where
  "refresh lib r now st =
     (case r of
        GetFailed \<Rightarrow> (Inl UpstreamUnreachable, st)
      | DecodeFailed \<Rightarrow> (Inl UpstreamMalformed, st)
      | Decoded ms \<Rightarrow>
          (case alloc (normalizeMatches lib ms) st of
             (response, st1) \<Rightarrow>
               (case cloneMatches response (st1\<lparr>cachedMatch := response, cachedAt := now\<rparr>) of
                  (out, st2) \<Rightarrow> (Inr out, st2))))"

definition fetchMatches ::
  "library \<Rightarrow> call \<Rightarrow> state \<Rightarrow> (fetchError + slice) \<times> state" where
  "fetchMatches lib c st =
     (if fresh (tCheck c) st
      then (case cloneMatches (cachedMatch st) st of (out, st1) \<Rightarrow> (Inr out, st1))
      else refresh lib (reply c) (tStore c) (st\<lparr>upstreamCalls := Suc (upstreamCalls st)\<rparr>))"

text \<open>
  \<^verbatim>\<open>loadMatchesWithFavorites\<close>: the flag \<^verbatim>\<open>IsFavorite\<close> is written into the elements of the
  slice that \<^verbatim>\<open>fetchMatches\<close> returned.
\<close>

definition annotate :: "favorites \<Rightarrow> Match \<Rightarrow> Match" where
  "annotate favs m = m\<lparr>IsFavorite := isFav favs (Title m)\<rparr>"

definition loadMatchesWithFavorites ::
  "library \<Rightarrow> string option \<Rightarrow> call \<Rightarrow> state \<Rightarrow> (fetchError + slice) \<times> state" where
  "loadMatchesWithFavorites lib cookie c st =
     (case fetchMatches lib c st of
        (Inl err, st1) \<Rightarrow> (Inl err, st1)
      | (Inr matches, st1) \<Rightarrow> (Inr matches, updateSlice (annotate (getFavorites cookie)) matches st1))"

text \<open>Calls of \<^verbatim>\<open>fetchMatches\<close> one after the other, with the result of each.\<close>

fun runCalls ::
  "library \<Rightarrow> call list \<Rightarrow> state \<Rightarrow> (fetchError + slice) list \<times> state" where
  "runCalls lib [] st = ([], st)"
| "runCalls lib (c # cs) st =
     (case fetchMatches lib c st of
        (r, st1) \<Rightarrow> (case runCalls lib cs st1 of (rs, st2) \<Rightarrow> (r # rs, st2)))"

text \<open>What a reader of the cache sees: the stamp, the slice and the records it holds.\<close>

definition snapshot :: "state \<Rightarrow> int \<times> slice \<times> Match list" where
  "snapshot st = (cachedAt st, cachedMatch st, readSlice st (cachedMatch st))"

text \<open>
  The arrays in use lie below \<open>nextAddr\<close>: the invariant of the allocator that the
  aliasing arguments rest on. It holds initially and every operation keeps it.
\<close>

definition cacheAllocated :: "state \<Rightarrow> bool" where
  "cacheAllocated st = (arr (cachedMatch st) < nextAddr st)"

subsection \<open>Concurrent callers\<close>

text \<open>
  \<^verbatim>\<open>fetchMatches\<close> begins with \<^verbatim>\<open>cacheMu.Lock()\<close> and, by \<^verbatim>\<open>defer\<close>, ends with
  \<^verbatim>\<open>cacheMu.Unlock()\<close>. Goroutine \<open>i\<close> (of \<open>n\<close>) runs one call of \<^verbatim>\<open>fetchMatches\<close>, meeting
  the clock readings and the upstream answer \<open>calls i\<close>. Its steps interleave with those
  of the others: it takes the mutex when it is free; holding it, it tests the age of the
  cache and either returns a clone, or issues the \<^verbatim>\<open>Get\<close>; when the upstream has answered
  it runs the rest of the refresh and returns. Returning releases the mutex.
\<close>

datatype pc = Idle | Locked | InFlight | Returned "fetchError + slice"

record system =
  shared :: state
  cacheMu :: bool
  pcs :: "nat \<Rightarrow> pc"

definition start :: "state \<Rightarrow> system" where
  "start st = \<lparr>shared = st, cacheMu = False, pcs = (\<lambda>i. Idle)\<rparr>"

text \<open>A goroutine between \<^verbatim>\<open>Lock\<close> and \<^verbatim>\<open>Unlock\<close>.\<close>

definition busy :: "pc \<Rightarrow> bool" where
  "busy p = (p = Locked \<or> p = InFlight)"

inductive step ::
  "library \<Rightarrow> nat \<Rightarrow> (nat \<Rightarrow> call) \<Rightarrow> system \<Rightarrow> system \<Rightarrow> bool"
  for lib n calls where
  lock:
    "i < n \<Longrightarrow> pcs s i = Idle \<Longrightarrow> \<not> cacheMu s \<Longrightarrow>
     step lib n calls s (s\<lparr>cacheMu := True, pcs := (pcs s)(i := Locked)\<rparr>)"
| hit:
    "i < n \<Longrightarrow> pcs s i = Locked \<Longrightarrow> fresh (tCheck (calls i)) (shared s) \<Longrightarrow>
     step lib n calls s
       (s\<lparr>shared := snd (cloneMatches (cachedMatch (shared s)) (shared s)),
          cacheMu := False,
          pcs := (pcs s)(i := Returned (Inr (fst (cloneMatches (cachedMatch (shared s)) (shared s)))))\<rparr>)"
| get:
    "i < n \<Longrightarrow> pcs s i = Locked \<Longrightarrow> \<not> fresh (tCheck (calls i)) (shared s) \<Longrightarrow>
     step lib n calls s
       (s\<lparr>shared := (shared s)\<lparr>upstreamCalls := Suc (upstreamCalls (shared s))\<rparr>,
          pcs := (pcs s)(i := InFlight)\<rparr>)"
| answer:
    "i < n \<Longrightarrow> pcs s i = InFlight \<Longrightarrow>
     step lib n calls s
       (s\<lparr>shared := snd (refresh lib (reply (calls i)) (tStore (calls i)) (shared s)),
          cacheMu := False,
          pcs := (pcs s)(i := Returned
                   (fst (refresh lib (reply (calls i)) (tStore (calls i)) (shared s))))\<rparr>)"

inductive reachable ::
  "library \<Rightarrow> nat \<Rightarrow> (nat \<Rightarrow> call) \<Rightarrow> state \<Rightarrow> system \<Rightarrow> bool"
  for lib n calls st0 where
  reach_start: "reachable lib n calls st0 (start st0)"
| reach_step:
    "reachable lib n calls st0 s \<Longrightarrow> step lib n calls s s' \<Longrightarrow>
     reachable lib n calls st0 s'"

text \<open>Callers whose \<^verbatim>\<open>Get\<close> fails, each at its own time.\<close>

definition failing :: "nat \<Rightarrow> call" where
  "failing i = \<lparr>tCheck = int i, reply = GetFailed, tStore = int i\<rparr>"

text \<open>
  A goroutine that runs its whole call with no step of another in between: the state
  and the result are those of \<^verbatim>\<open>fetchMatches\<close>.
\<close>

definition runAlone ::
  "library \<Rightarrow> (nat \<Rightarrow> call) \<Rightarrow> nat \<Rightarrow> system \<Rightarrow> system" where
  "runAlone lib calls i s =
     s\<lparr>shared := snd (fetchMatches lib (calls i) (shared s)),
       cacheMu := False,
       pcs := (pcs s)(i := Returned (fst (fetchMatches lib (calls i) (shared s))))\<rparr>"

text \<open>Callers whose \<^verbatim>\<open>Get\<close> succeeds with one record, each at its own time.\<close>

definition succeeding :: "nat \<Rightarrow> call" where
  "succeeding i =
     \<lparr>tCheck = int i, reply = Decoded [decoded ''A - B'' ''L: x'' ''2024-01-03''], tStore = int i\<rparr>"

section \<open>Properties\<close>

subsection \<open>Strings\<close>

lemma toLowerChar_idem: "toLowerChar (toLowerChar c) = toLowerChar c"
  by (auto simp: toLowerChar_def less_eq_char_def)

lemma ToLower_idem: "ToLower (ToLower s) = ToLower s"
  by (simp add: ToLower_def toLowerChar_idem)

lemma ToLower_Nil_iff: "ToLower s = [] \<longleftrightarrow> s = []"
  by (simp add: ToLower_def)

lemma isSpace_toLowerChar: "isSpace (toLowerChar c) = isSpace c"
proof (cases "CHR ''A'' \<le> c \<and> c \<le> CHR ''Z''")
  case True
  then have r: "65 \<le> (of_char c :: nat)" "(of_char c :: nat) \<le> 90"
    by (simp_all add: less_eq_char_def)
  have "\<not> isSpace c" using r by (auto simp: isSpace_def)
  moreover have "(of_char (toLowerChar c) :: nat) = of_char c + 32"
    using True r by (simp add: toLowerChar_def)
  then have "\<not> isSpace (toLowerChar c)" using r by (auto simp: isSpace_def)
  ultimately show ?thesis by simp
next
  case False
  then show ?thesis by (auto simp add: toLowerChar_def)
qed

lemma ToLower_TrimSpace: "ToLower (TrimSpace s) = TrimSpace (ToLower s)"
proof -
  have d: "map toLowerChar (dropWhile isSpace xs) = dropWhile isSpace (map toLowerChar xs)" for xs
    by (induction xs) (auto simp: isSpace_toLowerChar)
  show ?thesis
    unfolding ToLower_def TrimSpace_def
    by (simp only: rev_map[symmetric] d)
qed

lemma takeWhile_absent: "sep \<notin> set s \<Longrightarrow> takeWhile (\<lambda>c. c \<noteq> sep) s = s"
  by (induction s) auto

lemma takeWhile_before:
  "sep \<notin> set pre \<Longrightarrow> takeWhile (\<lambda>c. c \<noteq> sep) (pre @ sep # post) = pre"
  by (induction pre) auto

subsection \<open>The derived category\<close>

lemma normalizeMatch_Category:
  "Category (normalizeMatch lib m) =
     trimSpace lib (toLower lib (takeWhile (\<lambda>c. c \<noteq> CHR '':'') (Competition m)))"
  by (auto simp: normalizeMatch_def Let_def SplitN2_def takeWhile_absent split: option.splits)

lemma normalizeMatch_Competition: "Competition (normalizeMatch lib m) = Competition m"
  by (auto simp: normalizeMatch_def Let_def split: option.splits)

lemma normalizeMatch_Title: "Title (normalizeMatch lib m) = Title m"
  by (auto simp: normalizeMatch_def Let_def split: option.splits)

lemma set_normalizeMatches: "set (normalizeMatches lib ms) = normalizeMatch lib ` set ms"
  by (simp add: normalizeMatches_def sortByDateDesc_def)

lemma length_normalizeMatches: "length (normalizeMatches lib ms) = length ms"
  by (simp add: normalizeMatches_def sortByDateDesc_def)

lemma normalized_Category:
  assumes "m \<in> set (normalizeMatches lib ms)"
  shows "Category m =
           trimSpace lib (toLower lib (takeWhile (\<lambda>c. c \<noteq> CHR '':'') (Competition m)))"
  using assms
  by (auto simp: set_normalizeMatches normalizeMatch_Category normalizeMatch_Competition)

text \<open>
  C6, as the code has it, whatever \<^verbatim>\<open>strings.ToLower\<close> and \<^verbatim>\<open>strings.TrimSpace\<close> compute.
  \<^verbatim>\<open>strings.SplitN(_, ":", 2)\<close> returns the whole string as its only part when there is no
  colon, so a record whose competition has no colon gets the lowercased, trimmed
  competition as its category (not the empty string); a record whose competition has a
  colon gets the lowercased, trimmed text before the first colon.
\<close>

theorem normalizeMatches_category:
  assumes "m \<in> set (normalizeMatches lib ms)"
  shows "(CHR '':'' \<notin> set (Competition m) \<longrightarrow>
            Category m = trimSpace lib (toLower lib (Competition m)))
       \<and> (\<forall>pre post. Competition m = pre @ CHR '':'' # post \<and> CHR '':'' \<notin> set pre \<longrightarrow>
            Category m = trimSpace lib (toLower lib pre))"
  using normalized_Category[OF assms]
  by (auto simp: takeWhile_absent takeWhile_before)

theorem normalizeMatches_category_witness:
  "normalizeMatches asciiLib [decoded ''A - B'' ''LEAGUE: Stage 1'' ''2024-01-03'']
     = [(decoded ''A - B'' ''LEAGUE: Stage 1'' ''2024-01-03'')
          \<lparr>PrettyDate := ''2024-01-03'', Category := ''league''\<rparr>]
   \<and> Category ((decoded ''A - B'' ''LEAGUE: Stage 1'' ''2024-01-03'')
          \<lparr>PrettyDate := ''2024-01-03'', Category := ''league''\<rparr>)
       = trimSpace asciiLib (toLower asciiLib ''LEAGUE'')
   \<and> trimSpace asciiLib (toLower asciiLib ''LEAGUE'') = ''league''"
proof -
  let ?m = "(decoded ''A - B'' ''LEAGUE: Stage 1'' ''2024-01-03'')
          \<lparr>PrettyDate := ''2024-01-03'', Category := ''league''\<rparr>"
  have run: "normalizeMatches asciiLib [decoded ''A - B'' ''LEAGUE: Stage 1'' ''2024-01-03''] = [?m]"
    by code_simp
  then have mem: "?m \<in> set (normalizeMatches asciiLib [decoded ''A - B'' ''LEAGUE: Stage 1'' ''2024-01-03''])"
    by simp
  have comp: "Competition ?m = ''LEAGUE'' @ CHR '':'' # '' Stage 1''"
    by (simp add: decoded_def)
  have pre: "CHR '':'' \<notin> set ''LEAGUE''"
    by simp
  from normalizeMatches_category[OF mem] comp pre
  have c: "Category ?m = trimSpace asciiLib (toLower asciiLib ''LEAGUE'')"
    by blast
  have v: "trimSpace asciiLib (toLower asciiLib ''LEAGUE'') = ''league''"
    by code_simp
  from run c v show ?thesis by (intro conjI)
qed

theorem category_without_colon_counterexample:
  "CHR '':'' \<notin> set (Competition (decoded ''A - B'' ''Friendly'' ''2024-01-03''))
   \<and> map Category (normalizeMatches asciiLib [decoded ''A - B'' ''Friendly'' ''2024-01-03''])
       = [''friendly'']"
  by code_simp

subsection \<open>Filtering\<close>

lemma Contains_Nil: "Contains s []"
  by (cases s) simp_all

lemma filterLoop_filter:
  "filterLoop lib q c ms =
     filter (\<lambda>m. (q = [] \<or> Contains (toLower lib (Title m)) q
                          \<or> Contains (toLower lib (Competition m)) q)
                \<and> (c = [] \<or> Category m = [] \<or> Contains (Category m) c)) ms"
  by (induction ms) auto

lemma filterLoop_plain:
  "filterLoop lib q c ms =
     filter (\<lambda>m. (Contains (toLower lib (Title m)) q \<or> Contains (toLower lib (Competition m)) q)
                \<and> (Category m = [] \<or> Contains (Category m) c)) ms"
  unfolding filterLoop_filter
  by (rule filter_cong) (auto simp: Contains_Nil)

lemma filterMatches_filter:
  assumes "x \<noteq> [] \<or> y \<noteq> []"
  shows "filterMatches lib ms x y =
     filter (\<lambda>m. (Contains (toLower lib (Title m)) (toLower lib x)
                   \<or> Contains (toLower lib (Competition m)) (toLower lib x))
                \<and> (Category m = [] \<or> Contains (Category m) (toLower lib y))) ms"
  using assms by (auto simp: filterMatches_def filterLoop_plain)

text \<open>
  C3, as the code has it, whatever \<^verbatim>\<open>strings.ToLower\<close> computes. With both filters empty
  \<^verbatim>\<open>filterMatches\<close> returns the list as it is. Otherwise it keeps, in their order, exactly
  the records that pass the text filter and the category filter: a record passes the
  text filter \<open>x\<close> when the lowercased \<open>x\<close> occurs in its lowercased title or in its
  lowercased raw competition, and it passes the category filter \<open>y\<close> when its category
  is empty (the guard \<^verbatim>\<open>m.Category != ""\<close>) or contains the lowercased \<open>y\<close>. The empty
  string occurs in every string, so a filter whose lowercased form is empty lets every
  record pass; given that \<^verbatim>\<open>ToLower\<close> of the empty string is empty, one empty filter is a
  no-op beside the other. On records that \<^verbatim>\<open>normalizeMatches\<close> produced, the category is
  the lowercased, trimmed text of the competition before its first colon, so the
  category test compares lowercased with lowercased.
\<close>

theorem filterMatches_exact:
  "filterMatches lib ms [] [] = ms
   \<and> (x \<noteq> [] \<or> y \<noteq> [] \<longrightarrow>
        filterMatches lib ms x y =
          filter (\<lambda>m. (Contains (toLower lib (Title m)) (toLower lib x)
                        \<or> Contains (toLower lib (Competition m)) (toLower lib x))
                     \<and> (Category m = [] \<or> Contains (Category m) (toLower lib y))) ms)
   \<and> (toLower lib [] = [] \<longrightarrow>
        filterMatches lib ms x [] =
          filter (\<lambda>m. Contains (toLower lib (Title m)) (toLower lib x)
                       \<or> Contains (toLower lib (Competition m)) (toLower lib x)) ms
        \<and> filterMatches lib ms [] y =
          filter (\<lambda>m. Category m = [] \<or> Contains (Category m) (toLower lib y)) ms)
   \<and> (\<forall>m\<in>set (normalizeMatches lib raw).
         Category m =
           trimSpace lib (toLower lib (takeWhile (\<lambda>c. c \<noteq> CHR '':'') (Competition m))))"
proof -
  have 1: "filterMatches lib ms [] [] = ms"
    by (simp add: filterMatches_def)
  have 2: "x \<noteq> [] \<or> y \<noteq> [] \<longrightarrow>
        filterMatches lib ms x y =
          filter (\<lambda>m. (Contains (toLower lib (Title m)) (toLower lib x)
                        \<or> Contains (toLower lib (Competition m)) (toLower lib x))
                     \<and> (Category m = [] \<or> Contains (Category m) (toLower lib y))) ms"
    using filterMatches_filter[of x y lib ms] by blast
  have 3: "filterMatches lib ms x [] =
          filter (\<lambda>m. Contains (toLower lib (Title m)) (toLower lib x)
                       \<or> Contains (toLower lib (Competition m)) (toLower lib x)) ms
        \<and> filterMatches lib ms [] y =
          filter (\<lambda>m. Category m = [] \<or> Contains (Category m) (toLower lib y)) ms"
    if e: "toLower lib [] = []"
  proof
    show "filterMatches lib ms x [] =
          filter (\<lambda>m. Contains (toLower lib (Title m)) (toLower lib x)
                       \<or> Contains (toLower lib (Competition m)) (toLower lib x)) ms"
    proof (cases "x = []")
      case True
      then show ?thesis by (simp add: filterMatches_def e Contains_Nil)
    next
      case False
      then show ?thesis by (simp add: filterMatches_filter e Contains_Nil)
    qed
    show "filterMatches lib ms [] y =
          filter (\<lambda>m. Category m = [] \<or> Contains (Category m) (toLower lib y)) ms"
    proof (cases "y = []")
      case True
      then show ?thesis by (simp add: filterMatches_def e Contains_Nil)
    next
      case False
      then show ?thesis by (simp add: filterMatches_filter e Contains_Nil)
    qed
  qed
  have 4: "\<forall>m\<in>set (normalizeMatches lib raw).
         Category m =
           trimSpace lib (toLower lib (takeWhile (\<lambda>c. c \<noteq> CHR '':'') (Competition m)))"
    by (auto dest: normalized_Category)
  from 1 2 3 4 show ?thesis by blast
qed

theorem filterMatches_exact_witness:
  "map Title (filterMatches asciiLib
     (normalizeMatches asciiLib
        [decoded ''Arsenal - Chelsea'' ''ENGLAND: Premier League'' ''2024-01-03'',
         decoded ''Real - Barca'' ''SPAIN: La Liga'' ''2024-01-02'',
         decoded ''Leeds - Hull'' ''England Cup'' ''2024-01-01'',
         decoded ''Test - England'' [] ''2024-01-00''])
     ''ENGL'' ''Eng'') = [''Arsenal - Chelsea'', ''Leeds - Hull'', ''Test - England'']"
proof -
  let ?raw = "[decoded ''Arsenal - Chelsea'' ''ENGLAND: Premier League'' ''2024-01-03'',
         decoded ''Real - Barca'' ''SPAIN: La Liga'' ''2024-01-02'',
         decoded ''Leeds - Hull'' ''England Cup'' ''2024-01-01'',
         decoded ''Test - England'' [] ''2024-01-00'']"
  have h: "map Title (filter
       (\<lambda>m. (Contains (toLower asciiLib (Title m)) (toLower asciiLib ''ENGL'')
              \<or> Contains (toLower asciiLib (Competition m)) (toLower asciiLib ''ENGL''))
           \<and> (Category m = [] \<or> Contains (Category m) (toLower asciiLib ''Eng'')))
       (normalizeMatches asciiLib ?raw)) = [''Arsenal - Chelsea'', ''Leeds - Hull'', ''Test - England'']"
    by code_simp
  have ne: "''ENGL'' \<noteq> [] \<or> ''Eng'' \<noteq> []"
    by simp
  from filterMatches_exact[of asciiLib "normalizeMatches asciiLib ?raw" "''ENGL''" "''Eng''"] ne
  have eq: "filterMatches asciiLib (normalizeMatches asciiLib ?raw) ''ENGL'' ''Eng'' =
     filter (\<lambda>m. (Contains (toLower asciiLib (Title m)) (toLower asciiLib ''ENGL'')
              \<or> Contains (toLower asciiLib (Competition m)) (toLower asciiLib ''ENGL''))
           \<and> (Category m = [] \<or> Contains (Category m) (toLower asciiLib ''Eng'')))
       (normalizeMatches asciiLib ?raw)"
    by blast
  show ?thesis
    by (simp only: eq h)
qed

theorem filter_empty_category_counterexample:
  "map Category (normalizeMatches asciiLib [decoded ''A - B'' [] ''2024-01-03'']) = [[]]
   \<and> \<not> Contains (toLower asciiLib []) (toLower asciiLib ''cup'')
   \<and> filterMatches asciiLib (normalizeMatches asciiLib [decoded ''A - B'' [] ''2024-01-03'']) [] ''cup''
       = normalizeMatches asciiLib [decoded ''A - B'' [] ''2024-01-03'']"
  by code_simp

subsection \<open>Lookup by title\<close>

lemma findMatch_find:
  "findMatch lib title ms =
     List.find (\<lambda>m. Title m = title
                    \<or> equalFold lib (Join (splitFields lib (Title m)) '' '')
                         (Join (splitFields lib title) '' '')) ms"
  by (induction ms) auto

lemma findMatch_None:
  "findMatch lib title ms = None \<longleftrightarrow>
     (\<forall>m\<in>set ms. Title m \<noteq> title
                  \<and> \<not> equalFold lib (Join (splitFields lib (Title m)) '' '')
                         (Join (splitFields lib title) '' ''))"
  by (auto simp: findMatch_find find_None_iff)

text \<open>
  C4, as the code has it, whatever \<^verbatim>\<open>strings.EqualFold\<close>, \<^verbatim>\<open>strings.Fields\<close>,
  \<^verbatim>\<open>strings.TrimSpace\<close> and \<^verbatim>\<open>url.QueryUnescape\<close> compute. The lookup is one pass: it
  returns the first record, in list order, whose title equals the requested title or
  equals it after case folding and collapsing runs of white space; \<^verbatim>\<open>DetailHandler\<close>
  answers \<open>NotFound\<close> exactly when no record matches either way. A record that matches
  only under the normalised comparison wins over an exact match further down the list.
\<close>

theorem lookup_first_match:
  "findMatch lib title ms =
     List.find (\<lambda>m. Title m = title
                    \<or> equalFold lib (Join (splitFields lib (Title m)) '' '')
                         (Join (splitFields lib title) '' '')) ms
   \<and> (titleRaw \<noteq> [] \<longrightarrow>
        (DetailHandler lib titleRaw (Inr ms) = Inl NotFound) =
        (\<forall>m\<in>set ms. Title m \<noteq> requestedTitle lib titleRaw
            \<and> \<not> equalFold lib (Join (splitFields lib (Title m)) '' '')
                   (Join (splitFields lib (requestedTitle lib titleRaw)) '' '')))"
  using findMatch_None[of lib "requestedTitle lib titleRaw" ms]
  by (auto simp: findMatch_find[symmetric] DetailHandler_def split: option.splits)

theorem lookup_first_match_witness:
  "map_option Title (findMatch asciiLib ''Team A  vs Team B''
      [decoded ''Other'' ''X: y'' ''d0'', decoded ''team a vs team b'' ''X: y'' ''d1''])
     = Some ''team a vs team b''
   \<and> DetailHandler asciiLib ''Nobody''
        (Inr [decoded ''Other'' ''X: y'' ''d0'', decoded ''team a vs team b'' ''X: y'' ''d1''])
     = Inl NotFound"
proof -
  let ?ms = "[decoded ''Other'' ''X: y'' ''d0'', decoded ''team a vs team b'' ''X: y'' ''d1'']"
  have f: "map_option Title (List.find (\<lambda>m. Title m = ''Team A  vs Team B''
                    \<or> equalFold asciiLib (Join (splitFields asciiLib (Title m)) '' '')
                         (Join (splitFields asciiLib ''Team A  vs Team B'') '' '')) ?ms)
       = Some ''team a vs team b''"
    by code_simp
  have n: "\<forall>m\<in>set ?ms. Title m \<noteq> requestedTitle asciiLib ''Nobody''
            \<and> \<not> equalFold asciiLib (Join (splitFields asciiLib (Title m)) '' '')
                   (Join (splitFields asciiLib (requestedTitle asciiLib ''Nobody'')) '' '')"
    by code_simp
  have ne: "''Nobody'' \<noteq> []" by simp
  from lookup_first_match[of asciiLib "''Team A  vs Team B''" ?ms "''Nobody''"] f
  have 1: "map_option Title (findMatch asciiLib ''Team A  vs Team B'' ?ms) = Some ''team a vs team b''"
    by (simp only:)
  from lookup_first_match[of asciiLib "''Nobody''" ?ms "''Nobody''"] n ne
  have 2: "DetailHandler asciiLib ''Nobody'' (Inr ?ms) = Inl NotFound"
    by blast
  from 1 2 show ?thesis by (rule conjI)
qed

theorem lookup_exact_not_preferred_counterexample:
  "Title (decoded ''Team A'' ''X: y'' ''2024-01-02'') = ''Team A''
   \<and> Title (decoded ''team a'' ''X: y'' ''2024-01-03'') \<noteq> ''Team A''
   \<and> findMatch asciiLib ''Team A''
        [decoded ''team a'' ''X: y'' ''2024-01-03'', decoded ''Team A'' ''X: y'' ''2024-01-02'']
       = Some (decoded ''team a'' ''X: y'' ''2024-01-03'')"
  by code_simp

subsection \<open>Pagination\<close>

lemma wrap64_id: "minInt \<le> x \<Longrightarrow> x \<le> maxInt \<Longrightarrow> wrap64 x = x"
  by (simp add: wrap64_def minInt_def maxInt_def)

lemma wrap64_wrap64_diff: "wrap64 (wrap64 x - y) = wrap64 (x - y)"
proof -
  have "(((x + 2 ^ 63) mod 2 ^ 64 - 2 ^ 63) - y + 2 ^ 63) mod 2 ^ 64 = (x - y + 2 ^ 63) mod (2 ^ 64 :: int)"
    by (simp add: diff_add_eq mod_diff_left_eq)
  then show ?thesis by (simp add: wrap64_def)
qed

lemma quo_nonneg:
  assumes "0 \<le> a" "a \<le> maxInt" "0 < b"
  shows "quo a b = a div b"
proof -
  have lo: "0 \<le> a div b" using assms by (simp add: pos_imp_zdiv_nonneg_iff)
  have hi: "a div b \<le> a"
    using assms by (cases "a = 0") (simp_all add: int_div_le_self)
  have e: "sgn a * sgn b * (\<bar>a\<bar> div \<bar>b\<bar>) = a div b"
    using assms by (cases "a = 0") (simp_all add: sgn_if)
  have "minInt \<le> a div b" using lo by (simp add: minInt_def)
  moreover have "a div b \<le> maxInt" using hi assms by linarith
  ultimately have "wrap64 (a div b) = a div b" by (rule wrap64_id)
  then show ?thesis by (simp only: quo_def e)
qed

lemma div_bounds:
  assumes "0 < (s::int)"
  shows "(a div s) * s \<le> a" "a < (a div s) * s + s"
proof -
  have e: "(a div s) * s + a mod s = a" by simp
  have m: "0 \<le> a mod s" "a mod s < s" using assms by simp_all
  show "(a div s) * s \<le> a" using e m by linarith
  show "a < (a div s) * s + s" using e m by linarith
qed

lemma ceil_div:
  assumes "0 < (s::int)"
  shows "\<lceil>of_int n / (of_int s :: real)\<rceil> = (n + s - 1) div s"
proof (rule ceiling_unique)
  let ?q = "(n + s - 1) div s"
  have lo: "(?q - 1) * s < n" and hi: "n \<le> ?q * s"
    using div_bounds[OF assms, of "n + s - 1"] by (simp_all add: algebra_simps)
  have "(of_int ((?q - 1) * s) :: real) < of_int n" using lo by (simp only: of_int_less_iff)
  then show "of_int ?q - 1 < of_int n / (of_int s :: real)"
    using assms by (simp add: pos_less_divide_eq)
  have "(of_int n :: real) \<le> of_int (?q * s)" using hi by (simp only: of_int_le_iff)
  then show "of_int n / (of_int s :: real) \<le> of_int ?q"
    using assms by (simp add: pos_divide_le_eq)
qed

lemma take_drop_nth:
  assumes "b \<le> length xs"
  shows "take (b - a) (drop a xs) = map ((!) xs) [a..<b]"
proof (rule nth_equalityI)
  show "length (take (b - a) (drop a xs)) = length (map ((!) xs) [a..<b])"
    using assms by simp
  fix i assume "i < length (take (b - a) (drop a xs))"
  then have i: "i < b - a" by simp
  then show "take (b - a) (drop a xs) ! i = map ((!) xs) [a..<b] ! i"
    using assms by simp
qed

lemma totalPagesOf_eq:
  assumes "0 \<le> n" "0 < sz" "n + sz - 1 \<le> maxInt"
  shows "totalPagesOf n sz = max 1 ((n + sz - 1) div sz)"
proof -
  have r: "minInt \<le> n + sz - 1" using assms by (simp add: minInt_def)
  have "wrap64 (wrap64 (n + sz) - 1) = n + sz - 1"
    using wrap64_wrap64_diff[of "n + sz" 1] wrap64_id[OF r assms(3)] by simp
  moreover have "quo (n + sz - 1) sz = (n + sz - 1) div sz"
    using assms by (intro quo_nonneg) simp_all
  moreover have "0 \<le> (n + sz - 1) div sz"
    using assms by (simp add: pos_imp_zdiv_nonneg_iff)
  ultimately show ?thesis
    by (simp add: totalPagesOf_def Let_def max_def)
qed

lemma effectivePage_eq: "1 \<le> tp \<Longrightarrow> effectivePage p tp = max 1 (min p tp)"
  by (simp add: effectivePage_def Let_def max_def min_def)

lemma paginate_no_overflow:
  fixes ms :: "Match list" and p sz :: int
  assumes sz: "0 < sz" "sz \<le> maxInt"
    and nov: "int (length ms) + sz - 1 \<le> maxInt"
  defines "n \<equiv> int (length ms)"
  defines "tp \<equiv> max 1 ((n + sz - 1) div sz)"
  defines "eff \<equiv> max 1 (min p tp)"
  shows "paginate ms p sz =
           Inr (map ((!) ms) [nat ((eff - 1) * sz) ..< nat (min (eff * sz) n)],
                tp,
                (if eff = 1 then 0 else eff - 1),
                (if eff = tp then 0 else eff + 1))"
    and "1 \<le> eff" and "eff \<le> tp"
proof -
  have n0: "0 \<le> n" by (simp add: n_def)
  have tpo: "totalPagesOf n sz = tp"
    unfolding tp_def using n0 sz nov by (intro totalPagesOf_eq) (simp_all add: n_def)
  have tp1: "1 \<le> tp" by (simp add: tp_def)
  have effo: "effectivePage p tp = eff"
    unfolding eff_def using tp1 by (rule effectivePage_eq)
  show e1: "1 \<le> eff" by (simp add: eff_def)
  show e2: "eff \<le> tp" using tp1 by (simp add: eff_def)
  have b: "((n + sz - 1) div sz) * sz \<le> n + sz - 1" "n + sz - 1 < ((n + sz - 1) div sz) * sz + sz"
    using div_bounds[OF sz(1), of "n + sz - 1"] by simp_all
  have tplo: "(tp - 1) * sz \<le> n"
  proof (cases "1 \<le> (n + sz - 1) div sz")
    case True
    then have "tp = (n + sz - 1) div sz" by (simp add: tp_def)
    then show ?thesis using b by (simp add: algebra_simps)
  next
    case False
    then have "tp = 1" by (simp add: tp_def)
    then show ?thesis using n0 by simp
  qed
  have tphi: "tp * sz \<le> maxInt"
  proof (cases "1 \<le> (n + sz - 1) div sz")
    case True
    then have "tp = (n + sz - 1) div sz" by (simp add: tp_def)
    then show ?thesis using b nov by (simp add: n_def)
  next
    case False
    then have "tp = 1" by (simp add: tp_def)
    then show ?thesis using sz by simp
  qed
  have tple: "tp \<le> maxInt"
  proof -
    have "tp * 1 \<le> tp * sz" using tp1 sz by (intro mult_left_mono) simp_all
    then show ?thesis using tphi by simp
  qed
  have s0: "0 \<le> (eff - 1) * sz" using e1 sz by simp
  have s1: "(eff - 1) * sz \<le> (tp - 1) * sz"
    using e2 sz by (intro mult_right_mono) simp_all
  have s2: "(eff - 1) * sz \<le> n" using s1 tplo by linarith
  have nmax: "n \<le> maxInt" using nov sz unfolding n_def by linarith
  have t1: "eff * sz \<le> tp * sz" using e2 sz by (intro mult_right_mono) simp_all
  have t2: "eff * sz \<le> maxInt" using t1 tphi by linarith
  have es: "(eff - 1) * sz + sz = eff * sz" by (simp add: algebra_simps)
  have w1: "wrap64 (eff - 1) = eff - 1"
    using e1 e2 tple by (intro wrap64_id) (simp_all add: minInt_def)
  have w2: "wrap64 ((eff - 1) * sz) = (eff - 1) * sz"
    using s0 s2 nmax by (intro wrap64_id) (simp_all add: minInt_def)
  have t0: "0 \<le> eff * sz" using e1 sz by simp
  have w3: "wrap64 ((eff - 1) * sz + sz) = eff * sz"
    unfolding es using t2 t0 by (intro wrap64_id) (simp_all add: minInt_def)
  have w4: "eff < tp \<Longrightarrow> wrap64 (eff + 1) = eff + 1"
    using e1 tple by (intro wrap64_id) (simp_all add: minInt_def)
  have le: "(eff - 1) * sz \<le> min (eff * sz) n"
    using s2 sz es by (simp add: min_def)
  have sub: "subslice ms ((eff - 1) * sz) (min (eff * sz) n) =
      Inr (map ((!) ms) [nat ((eff - 1) * sz) ..< nat (min (eff * sz) n)])"
  proof -
    have "nat (min (eff * sz) n) \<le> length ms" by (simp add: n_def)
    then have "take (nat (min (eff * sz) n) - nat ((eff - 1) * sz)) (drop (nat ((eff - 1) * sz)) ms)
        = map ((!) ms) [nat ((eff - 1) * sz) ..< nat (min (eff * sz) n)]"
      by (rule take_drop_nth)
    moreover have "nat (min (eff * sz) n - (eff - 1) * sz) = nat (min (eff * sz) n) - nat ((eff - 1) * sz)"
      using s0 le by (simp add: nat_diff_distrib)
    moreover have "min (eff * sz) n \<le> int (length ms)" by (simp add: n_def)
    ultimately show ?thesis using s0 le by (simp add: subslice_def)
  qed
  have szi: "(if sz \<le> 0 then pageSize else sz) = sz" using sz(1) by simp
  have st: "(if (eff - 1) * sz > n then n else (eff - 1) * sz) = (eff - 1) * sz"
    using s2 by simp
  have en: "(if eff * sz > n then n else eff * sz) = min (eff * sz) n"
    by (simp add: min_def)
  have pv: "(if eff > 1 then eff - 1 else 0) = (if eff = 1 then 0 else eff - 1)"
    using e1 by auto
  have nx: "(if eff < tp then wrap64 (eff + 1) else 0) = (if eff = tp then 0 else eff + 1)"
    using e2 w4 by auto
  show "paginate ms p sz =
           Inr (map ((!) ms) [nat ((eff - 1) * sz) ..< nat (min (eff * sz) n)],
                tp,
                (if eff = 1 then 0 else eff - 1),
                (if eff = tp then 0 else eff + 1))"
    unfolding paginate_def Let_def n_def[symmetric]
    by (simp only: szi tpo effo w1 w2 w3 st en pv nx sub sum.case)
qed

text \<open>
  C2, as the code has it. For a page size \<open>sz > 0\<close> and a list of \<open>n\<close> records such that
  \<open>n + sz - 1\<close> is still an \<^verbatim>\<open>int\<close> (at most \<open>maxInt\<close>), \<^verbatim>\<open>paginate\<close> returns
  \<open>totalPages = max 1 \<lceil>n / sz\<rceil>\<close>; whatever page is asked for, the page it works with is
  clamped into \<open>[1, totalPages]\<close>; the returned slice holds the records at the indices from
  \<open>(page - 1) * sz\<close> up to, not including, \<open>min (page * sz) n\<close>; and \<^verbatim>\<open>prev\<close> (\<^verbatim>\<open>next\<close>) is 0
  exactly when that page is 1 (\<open>totalPages\<close>), else the page before (after) it. Without
  the bound the sum \<^verbatim>\<open>len(matches) + size - 1\<close> wraps around.
\<close>

theorem paginate_pages:
  fixes ms :: "Match list" and p sz :: int
  assumes "0 < sz" and "sz \<le> maxInt" and "int (length ms) + sz - 1 \<le> maxInt"
  shows "let n = int (length ms);
             tp = max 1 \<lceil>real_of_int n / real_of_int sz\<rceil>;
             eff = max 1 (min p tp)
         in paginate ms p sz =
              Inr (map ((!) ms) [nat ((eff - 1) * sz) ..< nat (min (eff * sz) n)],
                   tp,
                   (if eff = 1 then 0 else eff - 1),
                   (if eff = tp then 0 else eff + 1))
            \<and> 1 \<le> eff \<and> eff \<le> tp
            \<and> totalPagesOf n sz = tp \<and> effectivePage p tp = eff"
proof -
  let ?n = "int (length ms)"
  let ?tp = "max 1 ((?n + sz - 1) div sz)"
  let ?eff = "max 1 (min p ?tp)"
  note a = paginate_no_overflow[OF assms, of p]
  have tp: "totalPagesOf ?n sz = ?tp"
    using assms by (intro totalPagesOf_eq) simp_all
  have "1 \<le> ?tp" by simp
  then have ef: "effectivePage p ?tp = ?eff"
    by (rule effectivePage_eq)
  show ?thesis
    unfolding Let_def ceil_div[OF assms(1)]
    apply (insert a tp ef)
    apply (intro conjI)
        apply assumption+
    done
qed

theorem paginate_pages_witness:
  "paginate [decoded ''c'' ''L: x'' ''2024-01-03'', decoded ''b'' ''L: x'' ''2024-01-02'',
             decoded ''a'' ''L: x'' ''2024-01-01''] 1 2
     = Inr ([decoded ''c'' ''L: x'' ''2024-01-03'', decoded ''b'' ''L: x'' ''2024-01-02''], 2, 0, 2)
   \<and> paginate [decoded ''c'' ''L: x'' ''2024-01-03'', decoded ''b'' ''L: x'' ''2024-01-02'',
             decoded ''a'' ''L: x'' ''2024-01-01''] 7 2
     = Inr ([decoded ''a'' ''L: x'' ''2024-01-01''], 2, 1, 0)"
proof -
  let ?ms = "[decoded ''c'' ''L: x'' ''2024-01-03'', decoded ''b'' ''L: x'' ''2024-01-02'',
             decoded ''a'' ''L: x'' ''2024-01-01'']"
  have h: "(0::int) < 2" "(2::int) \<le> maxInt" "int (length ?ms) + 2 - 1 \<le> maxInt"
    by (simp_all add: maxInt_def)
  have c: "\<lceil>real_of_int (int (length ?ms)) / real_of_int 2\<rceil> = 2"
    by simp
  from paginate_pages[OF h, of 1] have 1: "paginate ?ms 1 2 =
     Inr ([decoded ''c'' ''L: x'' ''2024-01-03'', decoded ''b'' ''L: x'' ''2024-01-02''], 2, 0, 2)"
    unfolding Let_def c by (simp add: upt_conv_Cons)
  from paginate_pages[OF h, of 7] have 2: "paginate ?ms 7 2 =
     Inr ([decoded ''a'' ''L: x'' ''2024-01-01''], 2, 1, 0)"
    unfolding Let_def c by (simp add: upt_conv_Cons)
  from 1 2 show ?thesis by (rule conjI)
qed

theorem paginate_overflow_counterexample:
  "paginate [decoded ''b'' ''L: x'' ''2024-01-02'', decoded ''a'' ''L: x'' ''2024-01-01'']
      1 9223372036854775807 = Inl SliceBoundsOutOfRange"
  by code_simp

subsection \<open>Favourites\<close>

lemma pieces_not_Nil: "pieces P s \<noteq> []"
  by (induction s) (auto split: list.splits)

lemma pieces_clean: "\<forall>p\<in>set (pieces P s). \<forall>c\<in>set p. \<not> P c"
  by (induction s) (auto split: list.splits)

lemma pieces_no_cut: "\<forall>c\<in>set x. \<not> P c \<Longrightarrow> pieces P x = [x]"
  by (induction x) auto

lemma pieces_append_cut:
  "\<forall>c\<in>set x. \<not> P c \<Longrightarrow> P d \<Longrightarrow> pieces P (x @ d # rest) = x # pieces P rest"
  by (induction x) (auto split: list.splits simp: pieces_not_Nil)

lemma pieces_no_sep: "sep \<notin> set x \<Longrightarrow> pieces (\<lambda>c. c = sep) x = [x]"
  by (rule pieces_no_cut) auto

lemma pieces_append_sep:
  "sep \<notin> set x \<Longrightarrow> pieces (\<lambda>c. c = sep) (x @ sep # rest) = x # pieces (\<lambda>c. c = sep) rest"
  by (rule pieces_append_cut) auto

lemma Split_Join:
  assumes "xs \<noteq> []" and "\<forall>x\<in>set xs. sep \<notin> set x"
  shows "Split (Join xs [sep]) sep = xs"
  using assms
proof (induction xs "[sep]" rule: Join.induct)
  case 1
  then show ?case by simp
next
  case (2 x)
  then show ?case by (simp add: Split_def pieces_no_sep)
next
  case (3 x y ys)
  then have "Split (Join (y # ys) [sep]) sep = y # ys" by simp
  moreover have "sep \<notin> set x" using 3 by auto
  ultimately show ?case
    by (simp add: Split_def pieces_append_sep)
qed

lemma set_TrimSpace: "set (TrimSpace s) \<subseteq> set s"
proof -
  have "set (dropWhile isSpace (rev (dropWhile isSpace s))) \<subseteq> set (rev (dropWhile isSpace s))"
    by (rule set_dropWhileD[THEN subsetI]) 
  also have "\<dots> \<subseteq> set s" by (auto dest: set_dropWhileD)
  finally show ?thesis by (simp add: TrimSpace_def)
qed

lemma last_dropWhile_keep: "dropWhile P xs \<noteq> [] \<Longrightarrow> last (dropWhile P xs) = last xs"
proof -
  assume a: "dropWhile P xs \<noteq> []"
  have "last xs = last (takeWhile P xs @ dropWhile P xs)" by simp
  also have "\<dots> = last (dropWhile P xs)" using a by (rule last_appendR)
  finally show ?thesis by simp
qed

lemma TrimSpace_ends:
  assumes "TrimSpace s \<noteq> []"
  shows "\<not> isSpace (hd (TrimSpace s))" and "\<not> isSpace (last (TrimSpace s))"
proof -
  let ?u = "dropWhile isSpace s"
  let ?w = "dropWhile isSpace (rev ?u)"
  have w: "?w \<noteq> []" using assms by (simp add: TrimSpace_def)
  have u: "?u \<noteq> []"
  proof
    assume e: "?u = []"
    have "?w = dropWhile isSpace (rev [])" by (simp only: e)
    then have "?w = []" by simp
    with w show False ..
  qed
  have "\<not> isSpace (hd ?w)" using w by (rule hd_dropWhile)
  then show "\<not> isSpace (last (TrimSpace s))"
    using w by (simp add: TrimSpace_def last_rev)
  have "last ?w = last (rev ?u)" using w by (rule last_dropWhile_keep)
  also have "\<dots> = hd ?u" using u by (simp add: last_rev)
  finally have "hd (TrimSpace s) = hd ?u" using w by (simp add: TrimSpace_def hd_rev)
  moreover have "\<not> isSpace (hd ?u)" using u by (rule hd_dropWhile)
  ultimately show "\<not> isSpace (hd (TrimSpace s))" by simp
qed

lemma TrimSpace_fixed:
  assumes "t \<noteq> []" "\<not> isSpace (hd t)" "\<not> isSpace (last t)"
  shows "TrimSpace t = t"
proof -
  have 1: "dropWhile isSpace t = t" using assms by (cases t) auto
  have "rev t \<noteq> []" "\<not> isSpace (hd (rev t))" using assms by (simp_all add: hd_rev)
  then have 2: "dropWhile isSpace (rev t) = rev t" by (cases "rev t") auto
  show ?thesis by (simp add: TrimSpace_def 1 2)
qed

lemma TrimSpace_idem: "TrimSpace (TrimSpace s) = TrimSpace s"
proof (cases "TrimSpace s = []")
  case True
  have "TrimSpace [] = []" by (simp add: TrimSpace_def)
  with True show ?thesis by simp
next
  case False
  then show ?thesis by (intro TrimSpace_fixed TrimSpace_ends)
qed

lemma dom_addTitle:
  "dom (addTitle seg favs) =
     (if TrimSpace seg \<noteq> [] then insert (TrimSpace seg) (dom favs) else dom favs)"
  by (simp add: addTitle_def Let_def)

lemma dom_fold_addTitle:
  "dom (fold addTitle segs favs) =
     dom favs \<union> {t. t \<noteq> [] \<and> (\<exists>seg\<in>set segs. t = TrimSpace seg)}"
  by (induction segs arbitrary: favs) (auto simp: dom_addTitle)

lemma fold_addTitle_True:
  "\<forall>t. favs t \<noteq> Some False \<Longrightarrow> fold addTitle segs favs t \<noteq> Some False"
  by (induction segs arbitrary: favs) (auto simp: addTitle_def Let_def)

lemma dom_getFavorites_Some:
  "dom (getFavorites (Some v)) =
     {t. t \<noteq> [] \<and> (\<exists>seg\<in>set (Split v CHR ''|''). t = TrimSpace seg)}"
  by (simp add: getFavorites_def dom_fold_addTitle)

lemma getFavorites_None: "getFavorites None = Map.empty"
  by (simp add: getFavorites_def)

lemma finite_dom_getFavorites: "finite (dom (getFavorites cookie))"
proof (cases cookie)
  case None
  then show ?thesis by (simp add: getFavorites_None)
next
  case (Some v)
  have "dom (getFavorites (Some v)) \<subseteq> TrimSpace ` set (Split v CHR ''|'')"
    by (auto simp: dom_getFavorites_Some)
  then have "finite (dom (getFavorites (Some v)))"
    by (rule finite_subset) simp
  then show ?thesis by (simp only: Some)
qed

lemma getFavorites_True: "getFavorites cookie t \<noteq> Some False"
  by (cases cookie) (simp_all add: getFavorites_def fold_addTitle_True)

lemma getFavorites_in_dom:
  assumes "t \<in> dom (getFavorites cookie)"
  shows "getFavorites cookie t = Some True"
proof -
  from assms obtain b where b: "getFavorites cookie t = Some b" by auto
  with getFavorites_True[of cookie t] have "b = True" by (cases b) simp_all
  with b show ?thesis by simp
qed

lemma getFavorites_keys:
  assumes "t \<in> dom (getFavorites cookie)"
  shows "t \<noteq> []" and "TrimSpace t = t" and "CHR ''|'' \<notin> set t"
proof -
  from assms obtain v where c: "cookie = Some v"
    by (cases cookie) (auto simp: getFavorites_None)
  with assms obtain seg where t: "t \<noteq> []" "seg \<in> set (Split v CHR ''|'')" "t = TrimSpace seg"
    by (auto simp: dom_getFavorites_Some)
  show "t \<noteq> []" by (rule t(1))
  show "TrimSpace t = t" by (simp add: t(3) TrimSpace_idem)
  have "CHR ''|'' \<notin> set seg"
    using pieces_clean[of "\<lambda>c. c = CHR ''|''" v] t(2) by (auto simp: Split_def)
  then show "CHR ''|'' \<notin> set t"
    using set_TrimSpace[of seg] t(3) by auto
qed

lemma toggle_twice:
  "favs t \<noteq> Some False \<Longrightarrow> toggleFavorite t (toggleFavorite t favs) = favs"
  by (cases "favs t") (auto simp: toggleFavorite_def isFav_def fun_upd_idem_iff)

lemma toggle_True:
  "\<forall>k. favs k \<noteq> Some False \<Longrightarrow> toggleFavorite t favs k \<noteq> Some False"
  by (auto simp: toggleFavorite_def)

lemma fold_toggle_True:
  "\<forall>k. favs k \<noteq> Some False \<Longrightarrow> fold toggleFavorite ts favs k \<noteq> Some False"
  by (induction ts arbitrary: favs) (auto simp: toggle_True)

lemma toggle_commute:
  "toggleFavorite a (toggleFavorite b favs) = toggleFavorite b (toggleFavorite a favs)"
  by (cases "a = b") (auto simp: toggleFavorite_def isFav_def fun_upd_twist)

lemma fold_toggle_perm:
  assumes "mset ts = mset ts'"
  shows "fold toggleFavorite ts = fold toggleFavorite ts'"
  using _ assms
  by (rule fold_multiset_equiv) (auto simp: toggle_commute)

lemma dom_decode_encode:
  assumes fin: "finite (dom favs)"
    and keys: "\<forall>t\<in>dom favs. t \<noteq> [] \<and> TrimSpace t = t \<and> CHR ''|'' \<notin> set t"
  shows "dom (getFavorites (Some (saveFavorites favs))) = dom favs"
proof (cases "dom favs = {}")
  case True
  have "TrimSpace [] = []" by (simp add: TrimSpace_def)
  then show ?thesis
    using True by (simp add: saveFavorites_def getFavorites_def Split_def addTitle_def)
next
  case False
  let ?xs = "sorted_list_of_set (dom favs)"
  have s: "set ?xs = dom favs" using fin by simp
  have ne: "?xs \<noteq> []" using False fin by auto
  have "\<forall>x\<in>set ?xs. CHR ''|'' \<notin> set x" using keys s by auto
  with ne have "Split (Join ?xs [CHR ''|'']) CHR ''|'' = ?xs"
    by (rule Split_Join)
  then have "dom (getFavorites (Some (saveFavorites favs))) =
      {t. t \<noteq> [] \<and> (\<exists>seg\<in>set ?xs. t = TrimSpace seg)}"
    by (simp add: dom_getFavorites_Some saveFavorites_def)
  also have "\<dots> = dom favs"
    using keys unfolding s by force
  finally show ?thesis .
qed

lemma decode_encode_decode:
  "getFavorites (Some (saveFavorites (getFavorites cookie))) = getFavorites cookie"
proof (rule ext)
  fix t
  have d: "dom (getFavorites (Some (saveFavorites (getFavorites cookie)))) = dom (getFavorites cookie)"
    using finite_dom_getFavorites getFavorites_keys by (intro dom_decode_encode) auto
  show "getFavorites (Some (saveFavorites (getFavorites cookie))) t = getFavorites cookie t"
  proof (cases "t \<in> dom (getFavorites cookie)")
    case True
    then have "getFavorites cookie t = Some True"
      by (rule getFavorites_in_dom)
    moreover have "t \<in> dom (getFavorites (Some (saveFavorites (getFavorites cookie))))"
      using True by (simp only: d)
    then have "getFavorites (Some (saveFavorites (getFavorites cookie))) t = Some True"
      by (rule getFavorites_in_dom)
    ultimately show ?thesis by simp
  next
    case False
    then show ?thesis using d by (metis domIff)
  qed
qed

lemma finite_dom_toggle: "finite (dom favs) \<Longrightarrow> finite (dom (toggleFavorite t favs))"
  by (simp add: toggleFavorite_def)

lemma finite_dom_fold_toggle:
  "finite (dom favs) \<Longrightarrow> finite (dom (fold toggleFavorite ts favs))"
  by (induction ts arbitrary: favs) (simp_all add: finite_dom_toggle)


text \<open>
  C5. On every favourite set that toggles produce from a decoded cookie, toggling a
  title twice gives the set back. Decoding what \<^verbatim>\<open>saveFavorites\<close> encoded of a decoded set
  gives that set again, so encoding after decoding is idempotent on every cookie
  value (a missing cookie included). The encoded value is the titles of the set, each
  once, in ascending order, joined by \<^verbatim>\<open>|\<close>; it is the same for any two toggle sequences
  that toggle the same titles the same number of times, in whatever order.
\<close>

theorem favorites_round_trip:
  "toggleFavorite t (toggleFavorite t (fold toggleFavorite ts (getFavorites cookie)))
     = fold toggleFavorite ts (getFavorites cookie)
   \<and> getFavorites (Some (saveFavorites (getFavorites cookie))) = getFavorites cookie
   \<and> saveFavorites (getFavorites (Some (saveFavorites (getFavorites cookie))))
     = saveFavorites (getFavorites cookie)
   \<and> saveFavorites (fold toggleFavorite ts (getFavorites cookie))
     = Join (sorted_list_of_set (dom (fold toggleFavorite ts (getFavorites cookie)))) ''|''
   \<and> sorted (sorted_list_of_set (dom (fold toggleFavorite ts (getFavorites cookie))))
   \<and> distinct (sorted_list_of_set (dom (fold toggleFavorite ts (getFavorites cookie))))
   \<and> set (sorted_list_of_set (dom (fold toggleFavorite ts (getFavorites cookie))))
     = dom (fold toggleFavorite ts (getFavorites cookie))
   \<and> (mset ts = mset ts' \<longrightarrow>
        saveFavorites (fold toggleFavorite ts (getFavorites cookie))
      = saveFavorites (fold toggleFavorite ts' (getFavorites cookie)))"
proof -
  let ?F = "fold toggleFavorite ts (getFavorites cookie)"
  have "?F t \<noteq> Some False"
    by (rule fold_toggle_True) (simp add: getFavorites_True)
  then have 1: "toggleFavorite t (toggleFavorite t ?F) = ?F"
    by (rule toggle_twice)
  have 2: "getFavorites (Some (saveFavorites (getFavorites cookie))) = getFavorites cookie"
    by (rule decode_encode_decode)
  have 3: "saveFavorites (getFavorites (Some (saveFavorites (getFavorites cookie))))
     = saveFavorites (getFavorites cookie)"
    by (simp only: 2)
  have 4: "saveFavorites ?F = Join (sorted_list_of_set (dom ?F)) ''|''"
    by (simp add: saveFavorites_def)
  have "finite (dom ?F)"
    by (intro finite_dom_fold_toggle finite_dom_getFavorites)
  then have 5: "set (sorted_list_of_set (dom ?F)) = dom ?F"
    by simp
  have 6: "mset ts = mset ts' \<longrightarrow>
        saveFavorites ?F = saveFavorites (fold toggleFavorite ts' (getFavorites cookie))"
    by (auto dest: fold_toggle_perm)
  from 1 2 3 4 5 6 show ?thesis
    by (simp only: sorted_sorted_list_of_set distinct_sorted_list_of_set simp_thms)
qed

theorem favorites_round_trip_witness:
  "saveFavorites (fold toggleFavorite [''c'', ''b''] (getFavorites (Some ''b| a''))) = ''a|c''
   \<and> saveFavorites (fold toggleFavorite [''b'', ''c''] (getFavorites (Some ''b| a''))) = ''a|c''
   \<and> toggleFavorite ''x'' (toggleFavorite ''x'' (fold toggleFavorite [''b'', ''c''] (getFavorites (Some ''b| a''))))
     = fold toggleFavorite [''b'', ''c''] (getFavorites (Some ''b| a''))"
proof -
  note inst = favorites_round_trip[of "''x''" "[''b'', ''c'']" "Some ''b| a''" "[''c'', ''b'']"]
  have e: "saveFavorites (fold toggleFavorite [''c'', ''b''] (getFavorites (Some ''b| a''))) = ''a|c''"
    by (simp add: getFavorites_def Split_def addTitle_def TrimSpace_def isSpace_def
        toggleFavorite_def isFav_def saveFavorites_def)
  have m: "mset [''b'', ''c''] = mset [''c'', ''b'']"
    by simp
  from inst m have "saveFavorites (fold toggleFavorite [''b'', ''c''] (getFavorites (Some ''b| a'')))
      = saveFavorites (fold toggleFavorite [''c'', ''b''] (getFavorites (Some ''b| a'')))"
    by blast
  with e inst show ?thesis by simp
qed



subsection \<open>The match cache\<close>

lemma alloc_fields:
  "cachedAt (snd (alloc xs st)) = cachedAt st"
  "cachedMatch (snd (alloc xs st)) = cachedMatch st"
  "upstreamCalls (snd (alloc xs st)) = upstreamCalls st"
  "nextAddr (snd (alloc xs st)) = Suc (nextAddr st)"
  "fst (alloc xs st) = \<lparr>arr = nextAddr st, len = length xs\<rparr>"
  by (simp_all add: alloc_def)

lemma alloc_heap:
  "heap (snd (alloc xs st)) a = (if a = nextAddr st then xs else heap st a)"
  by (simp add: alloc_def)

lemma readSlice_alloc_new: "readSlice (snd (alloc xs st)) (fst (alloc xs st)) = xs"
  by (simp add: readSlice_def alloc_def)

lemma readSlice_alloc_old:
  "arr s < nextAddr st \<Longrightarrow> readSlice (snd (alloc xs st)) s = readSlice st s"
  by (simp add: readSlice_def alloc_def)

lemma clone_fields:
  "cachedAt (snd (cloneMatches src st)) = cachedAt st"
  "cachedMatch (snd (cloneMatches src st)) = cachedMatch st"
  "upstreamCalls (snd (cloneMatches src st)) = upstreamCalls st"
  "nextAddr (snd (cloneMatches src st)) = Suc (nextAddr st)"
  "arr (fst (cloneMatches src st)) = nextAddr st"
  by (simp_all add: cloneMatches_def alloc_fields)

lemma clone_contents:
  "readSlice (snd (cloneMatches src st)) (fst (cloneMatches src st)) = readSlice st src"
  by (simp add: cloneMatches_def readSlice_alloc_new)

lemma clone_old:
  "arr s < nextAddr st \<Longrightarrow> readSlice (snd (cloneMatches src st)) s = readSlice st s"
  by (simp add: cloneMatches_def readSlice_alloc_old)

lemma clone_snapshot:
  "cacheAllocated st \<Longrightarrow> snapshot (snd (cloneMatches src st)) = snapshot st"
  by (simp add: snapshot_def clone_fields clone_old cacheAllocated_def)

lemma fetch_hit:
  assumes "fresh (tCheck c) st"
  shows "fetchMatches pd c st =
           (Inr (fst (cloneMatches (cachedMatch st) st)), snd (cloneMatches (cachedMatch st) st))"
  using assms by (simp add: fetchMatches_def split: prod.splits)

lemma fetch_miss:
  assumes "\<not> fresh (tCheck c) st"
  shows "fetchMatches pd c st =
           refresh pd (reply c) (tStore c) (st\<lparr>upstreamCalls := Suc (upstreamCalls st)\<rparr>)"
  using assms by (simp add: fetchMatches_def)

lemma refresh_failed:
  "refresh pd GetFailed now st = (Inl UpstreamUnreachable, st)"
  "refresh pd DecodeFailed now st = (Inl UpstreamMalformed, st)"
  by (simp_all add: refresh_def)

lemma refresh_decoded:
  "refresh pd (Decoded ms) now st =
     (let response = fst (alloc (normalizeMatches pd ms) st);
          st1 = snd (alloc (normalizeMatches pd ms) st);
          st2 = st1\<lparr>cachedMatch := response, cachedAt := now\<rparr>
      in (Inr (fst (cloneMatches response st2)), snd (cloneMatches response st2)))"
  by (simp add: refresh_def Let_def split: prod.splits)

lemma refresh_decoded_fields:
  assumes "refresh pd (Decoded ms) now st = (r, st')"
  shows "cachedAt st' = now"
    and "cachedMatch st' = \<lparr>arr = nextAddr st, len = length ms\<rparr>"
    and "upstreamCalls st' = upstreamCalls st"
    and "nextAddr st' = Suc (Suc (nextAddr st))"
    and "r = Inr \<lparr>arr = Suc (nextAddr st), len = length ms\<rparr>"
    and "readSlice st' (cachedMatch st') = normalizeMatches pd ms"
    and "readSlice st' \<lparr>arr = Suc (nextAddr st), len = length ms\<rparr> = normalizeMatches pd ms"
    and "\<And>s. arr s < nextAddr st \<Longrightarrow> readSlice st' s = readSlice st s"
  using assms
  by (auto simp: refresh_def alloc_def cloneMatches_def readSlice_def length_normalizeMatches
      split: prod.splits)

lemma since_mono: "now \<le> now' \<Longrightarrow> since now t \<le> since now' t"
  by (simp add: since_def min_def max_def)

lemma fresh_cong:
  "cachedAt st' = cachedAt st \<Longrightarrow> cachedMatch st' = cachedMatch st \<Longrightarrow> fresh t st' = fresh t st"
  by (simp add: fresh_def)

lemma fresh_later:
  assumes "\<not> fresh now st" and "now \<le> now'"
  shows "\<not> fresh now' st"
  using assms since_mono[OF assms(2), of "cachedAt st"] by (auto simp: fresh_def)

lemma fetch_hit_fields:
  assumes "fresh (tCheck c) st"
  shows "upstreamCalls (snd (fetchMatches pd c st)) = upstreamCalls st"
    and "cachedAt (snd (fetchMatches pd c st)) = cachedAt st"
    and "cachedMatch (snd (fetchMatches pd c st)) = cachedMatch st"
    and "\<exists>s. fst (fetchMatches pd c st) = Inr s"
  by (simp_all add: fetch_hit[OF assms] clone_fields)

lemma fetch_miss_calls:
  assumes "\<not> fresh (tCheck c) st"
  shows "upstreamCalls (snd (fetchMatches pd c st)) = Suc (upstreamCalls st)"
proof (cases "reply c")
  case (Decoded ms)
  obtain r st' where e: "refresh pd (Decoded ms) (tStore c) (st\<lparr>upstreamCalls := Suc (upstreamCalls st)\<rparr>) = (r, st')"
    by (cases "refresh pd (Decoded ms) (tStore c) (st\<lparr>upstreamCalls := Suc (upstreamCalls st)\<rparr>)")
  show ?thesis
    using refresh_decoded_fields(3)[OF e] by (simp add: fetch_miss[OF assms] Decoded e)
qed (simp_all add: fetch_miss[OF assms] refresh_failed)

lemma fetch_calls_le:
  "upstreamCalls (snd (fetchMatches pd c st)) \<le> Suc (upstreamCalls st)"
  by (cases "fresh (tCheck c) st") (simp_all add: fetch_hit_fields fetch_miss_calls)

lemma runCalls_Cons:
  "runCalls pd (c # cs) st =
     (fst (fetchMatches pd c st) # fst (runCalls pd cs (snd (fetchMatches pd c st))),
      snd (runCalls pd cs (snd (fetchMatches pd c st))))"
  by (simp split: prod.splits)

lemma run_hits:
  assumes "\<forall>c\<in>set cs. fresh (tCheck c) st"
  shows "upstreamCalls (snd (runCalls pd cs st)) = upstreamCalls st
       \<and> cachedAt (snd (runCalls pd cs st)) = cachedAt st
       \<and> cachedMatch (snd (runCalls pd cs st)) = cachedMatch st
       \<and> (\<forall>r\<in>set (fst (runCalls pd cs st)). \<exists>s. r = Inr s)"
  using assms
proof (induction cs arbitrary: st)
  case Nil
  then show ?case by simp
next
  case (Cons c cs)
  let ?st1 = "snd (fetchMatches pd c st)"
  have c: "fresh (tCheck c) st" using Cons.prems by simp
  note h = fetch_hit_fields[OF c, of pd]
  have "\<forall>c\<in>set cs. fresh (tCheck c) ?st1"
    using Cons.prems fresh_cong[OF h(2) h(3)] by simp
  from Cons.IH[OF this] h show ?case
    by (simp add: runCalls_Cons del: runCalls.simps)
qed

lemma runCalls_append:
  "runCalls pd (cs @ ds) st =
     (fst (runCalls pd cs st) @ fst (runCalls pd ds (snd (runCalls pd cs st))),
      snd (runCalls pd ds (snd (runCalls pd cs st))))"
  by (induction cs arbitrary: st) (simp_all add: runCalls_Cons del: runCalls.simps(2))

lemma fetch_decoded_state:
  assumes "\<not> fresh (tCheck c) st" and "reply c = Decoded ms"
  shows "cachedAt (snd (fetchMatches pd c st)) = tStore c"
    and "len (cachedMatch (snd (fetchMatches pd c st))) = length ms"
    and "upstreamCalls (snd (fetchMatches pd c st)) = Suc (upstreamCalls st)"
    and "\<exists>s. fst (fetchMatches pd c st) = Inr s"
proof -
  obtain r st' where e: "refresh pd (Decoded ms) (tStore c) (st\<lparr>upstreamCalls := Suc (upstreamCalls st)\<rparr>) = (r, st')"
    by (cases "refresh pd (Decoded ms) (tStore c) (st\<lparr>upstreamCalls := Suc (upstreamCalls st)\<rparr>)")
  have f: "fetchMatches pd c st = (r, st')"
    by (simp add: fetch_miss[OF assms(1)] assms(2) e)
  show "cachedAt (snd (fetchMatches pd c st)) = tStore c"
    using refresh_decoded_fields(1)[OF e] by (simp add: f)
  show "len (cachedMatch (snd (fetchMatches pd c st))) = length ms"
    using refresh_decoded_fields(2)[OF e] by (simp add: f)
  show "upstreamCalls (snd (fetchMatches pd c st)) = Suc (upstreamCalls st)"
    using refresh_decoded_fields(3)[OF e] by (simp add: f)
  show "\<exists>s. fst (fetchMatches pd c st) = Inr s"
    using refresh_decoded_fields(5)[OF e] by (simp add: f)
qed

text \<open>
  C1, as the code has it. Take a call of \<^verbatim>\<open>fetchMatches\<close> that misses the cache and whose
  fetch succeeds with at least one record. It makes one upstream call; every sequence
  of calls that follow it within the TTL (each testing the age of the cache less than
  two minutes after the stamp of that fetch) makes no further upstream call and every
  one of them returns records; and the first call once the TTL has elapsed makes
  exactly one new upstream call. The guard \<^verbatim>\<open>len(cachedMatch) > 0\<close> is why the fetch must
  have returned a record: a successful fetch of no records is not served from the cache.
\<close>

theorem cache_ttl:
  assumes "\<not> fresh (tCheck c0) st0" and "reply c0 = Decoded ms" and "ms \<noteq> []"
    and "\<forall>c\<in>set cs. since (tCheck c) (tStore c0) < cacheTTL"
  shows "upstreamCalls (snd (fetchMatches lib c0 st0)) = Suc (upstreamCalls st0)
       \<and> upstreamCalls (snd (runCalls lib (c0 # cs) st0)) = Suc (upstreamCalls st0)
       \<and> (\<forall>r\<in>set (fst (runCalls lib (c0 # cs) st0)). \<exists>s. r = Inr s)
       \<and> (cacheTTL \<le> since (tCheck c') (tStore c0) \<longrightarrow>
            upstreamCalls (snd (runCalls lib (c0 # cs @ [c']) st0))
              = Suc (Suc (upstreamCalls st0)))"
proof -
  let ?st1 = "snd (fetchMatches lib c0 st0)"
  note d = fetch_decoded_state[OF assms(1) assms(2), of lib]
  have l: "0 < len (cachedMatch ?st1)" using d(2) assms(3) by simp
  have fr: "\<forall>c\<in>set cs. fresh (tCheck c) ?st1"
    using assms(4) l by (simp add: fresh_def d(1))
  note h = run_hits[OF fr, of lib]
  have r0: "runCalls lib (c0 # cs) st0 =
      (fst (fetchMatches lib c0 st0) # fst (runCalls lib cs ?st1),
       snd (runCalls lib cs ?st1))"
    by (rule runCalls_Cons)
  have 2: "upstreamCalls (snd (runCalls lib (c0 # cs) st0)) = Suc (upstreamCalls st0)"
    using h d(3) by (simp add: r0 del: runCalls.simps)
  have 3: "\<forall>r\<in>set (fst (runCalls lib (c0 # cs) st0)). \<exists>s. r = Inr s"
    using h d(4) by (simp add: r0 del: runCalls.simps)
  have 4: "upstreamCalls (snd (runCalls lib (c0 # cs @ [c']) st0)) = Suc (Suc (upstreamCalls st0))"
    if late: "cacheTTL \<le> since (tCheck c') (tStore c0)"
  proof -
    let ?st2 = "snd (runCalls lib (c0 # cs) st0)"
    have "cachedAt ?st2 = tStore c0" using h d(1) by (simp add: r0 del: runCalls.simps)
    then have "\<not> fresh (tCheck c') ?st2" using late by (simp add: fresh_def)
    then have "upstreamCalls (snd (fetchMatches lib c' ?st2)) = Suc (upstreamCalls ?st2)"
      by (rule fetch_miss_calls)
    moreover have "runCalls lib (c0 # cs @ [c']) st0
        = (fst (runCalls lib (c0 # cs) st0) @ fst (runCalls lib [c'] ?st2),
           snd (runCalls lib [c'] ?st2))"
      using runCalls_append[of lib "c0 # cs" "[c']" st0] by (simp del: runCalls.simps)
    moreover have "snd (runCalls lib [c'] ?st2) = snd (fetchMatches lib c' ?st2)"
      by (simp add: runCalls_Cons del: runCalls.simps(2))
    ultimately show ?thesis using 2 by (simp del: runCalls.simps)
  qed
  from d(3) 2 3 4 show ?thesis by blast
qed

theorem cache_ttl_witness:
  "upstreamCalls (snd (runCalls asciiLib
      [\<lparr>tCheck = 0, reply = Decoded [decoded ''A - B'' ''L: x'' ''2024-01-03''], tStore = 5\<rparr>,
       \<lparr>tCheck = 100, reply = GetFailed, tStore = 101\<rparr>] initState)) = 1
   \<and> upstreamCalls (snd (runCalls asciiLib
      [\<lparr>tCheck = 0, reply = Decoded [decoded ''A - B'' ''L: x'' ''2024-01-03''], tStore = 5\<rparr>,
       \<lparr>tCheck = 100, reply = GetFailed, tStore = 101\<rparr>,
       \<lparr>tCheck = 120000000005, reply = GetFailed, tStore = 120000000006\<rparr>] initState)) = 2"
proof -
  let ?c0 = "\<lparr>tCheck = 0, reply = Decoded [decoded ''A - B'' ''L: x'' ''2024-01-03''], tStore = 5\<rparr>"
  let ?c1 = "\<lparr>tCheck = 100, reply = GetFailed, tStore = 101\<rparr>"
  let ?c2 = "\<lparr>tCheck = 120000000005, reply = GetFailed, tStore = 120000000006\<rparr>"
  have a: "\<not> fresh (tCheck ?c0) initState"
    by (simp add: fresh_def initState_def)
  have b: "reply ?c0 = Decoded [decoded ''A - B'' ''L: x'' ''2024-01-03'']"
    by simp
  have c: "[decoded ''A - B'' ''L: x'' ''2024-01-03''] \<noteq> []"
    by simp
  have d: "\<forall>c\<in>set [?c1]. since (tCheck c) (tStore ?c0) < cacheTTL"
    by (simp add: since_def cacheTTL_def minInt_def maxInt_def)
  have e: "cacheTTL \<le> since (tCheck ?c2) (tStore ?c0)"
    by (simp add: since_def cacheTTL_def minInt_def maxInt_def)
  from cache_ttl[OF a b c d, of asciiLib ?c2] e
  show ?thesis by (simp add: initState_def del: runCalls.simps)
qed

theorem cache_empty_fetch_counterexample:
  "fst (fetchMatches asciiLib \<lparr>tCheck = 0, reply = Decoded [], tStore = 0\<rparr> initState)
     = Inr \<lparr>arr = 2, len = 0\<rparr>
   \<and> since 1 0 < cacheTTL
   \<and> upstreamCalls (snd (runCalls asciiLib
        [\<lparr>tCheck = 0, reply = Decoded [], tStore = 0\<rparr>,
         \<lparr>tCheck = 1, reply = Decoded [], tStore = 1\<rparr>] initState)) = 2"
  by code_simp

text \<open>
  C7. When the cache is stale or empty and the \<^verbatim>\<open>Get\<close> or the decoding fails, the call
  returns that error, not records; the state after the call is the state before it
  but for the count of upstream calls, so the stamp, the cached slice and the records
  it holds are unchanged; and every later call (its clock not before this one's) finds
  the cache still not fresh and makes an upstream call of its own.
\<close>

theorem failed_fetch_propagates:
  assumes "\<not> fresh (tCheck c) st" and "reply c = GetFailed \<or> reply c = DecodeFailed"
  shows "fst (fetchMatches lib c st)
           = Inl (if reply c = GetFailed then UpstreamUnreachable else UpstreamMalformed)
       \<and> snd (fetchMatches lib c st) = st\<lparr>upstreamCalls := Suc (upstreamCalls st)\<rparr>
       \<and> cachedAt (snd (fetchMatches lib c st)) = cachedAt st
       \<and> cachedMatch (snd (fetchMatches lib c st)) = cachedMatch st
       \<and> heap (snd (fetchMatches lib c st)) = heap st
       \<and> snapshot (snd (fetchMatches lib c st)) = snapshot st
       \<and> (\<forall>c'. tCheck c \<le> tCheck c' \<longrightarrow>
             \<not> fresh (tCheck c') (snd (fetchMatches lib c st))
             \<and> upstreamCalls (snd (fetchMatches lib c' (snd (fetchMatches lib c st))))
                 = Suc (Suc (upstreamCalls st)))"
proof -
  let ?st' = "st\<lparr>upstreamCalls := Suc (upstreamCalls st)\<rparr>"
  have f: "fetchMatches lib c st =
      (Inl (if reply c = GetFailed then UpstreamUnreachable else UpstreamMalformed), ?st')"
    using assms(2) by (auto simp: fetch_miss[OF assms(1)] refresh_failed)
  have later: "\<not> fresh (tCheck c') ?st'
      \<and> upstreamCalls (snd (fetchMatches lib c' ?st')) = Suc (Suc (upstreamCalls st))"
    if le: "tCheck c \<le> tCheck c'" for c'
  proof -
    have "\<not> fresh (tCheck c') st" using assms(1) le by (rule fresh_later)
    then have n: "\<not> fresh (tCheck c') ?st'" by (simp add: fresh_def)
    from fetch_miss_calls[OF n, of lib] n show ?thesis by simp
  qed
  show ?thesis
    using later by (simp add: f snapshot_def readSlice_def)
qed

theorem failed_fetch_propagates_witness:
  "fetchMatches asciiLib \<lparr>tCheck = 7, reply = GetFailed, tStore = 8\<rparr> initState
     = (Inl UpstreamUnreachable, initState\<lparr>upstreamCalls := 1\<rparr>)
   \<and> upstreamCalls (snd (fetchMatches asciiLib \<lparr>tCheck = 9, reply = DecodeFailed, tStore = 10\<rparr>
        (snd (fetchMatches asciiLib \<lparr>tCheck = 7, reply = GetFailed, tStore = 8\<rparr> initState)))) = 2"
proof -
  let ?c = "\<lparr>tCheck = 7, reply = GetFailed, tStore = 8\<rparr>"
  let ?c' = "\<lparr>tCheck = 9, reply = DecodeFailed, tStore = 10\<rparr>"
  have a: "\<not> fresh (tCheck ?c) initState"
    by (simp add: fresh_def initState_def)
  have b: "reply ?c = GetFailed \<or> reply ?c = DecodeFailed"
    by simp
  have le: "tCheck ?c \<le> tCheck ?c'"
    by simp
  note inst = failed_fetch_propagates[OF a b, of asciiLib]
  from inst have 1: "fetchMatches asciiLib ?c initState
     = (Inl UpstreamUnreachable, initState\<lparr>upstreamCalls := 1\<rparr>)"
    by (simp add: prod_eq_iff initState_def)
  from inst le have 2: "upstreamCalls (snd (fetchMatches asciiLib ?c'
        (snd (fetchMatches asciiLib ?c initState)))) = Suc (Suc (upstreamCalls initState))"
    by blast
  from 1 2 show ?thesis by (simp add: initState_def)
qed

lemma cacheAllocated_init: "cacheAllocated initState"
  by (simp add: cacheAllocated_def initState_def)

lemma fetch_copy:
  assumes wf: "cacheAllocated st" and f: "fetchMatches pd c st = (Inr s, st1)"
  shows "arr s \<noteq> arr (cachedMatch st1)"
    and "arr s < nextAddr st1"
    and "readSlice st1 s = readSlice st1 (cachedMatch st1)"
    and "cacheAllocated st1"
proof -
  have "arr s \<noteq> arr (cachedMatch st1) \<and> arr s < nextAddr st1
      \<and> readSlice st1 s = readSlice st1 (cachedMatch st1) \<and> cacheAllocated st1"
  proof (cases "fresh (tCheck c) st")
    case True
    from f fetch_hit[OF True, of pd]
    have s: "s = fst (cloneMatches (cachedMatch st) st)"
      and st1: "st1 = snd (cloneMatches (cachedMatch st) st)"
      by simp_all
    have lt: "arr (cachedMatch st) < nextAddr st" using wf by (simp add: cacheAllocated_def)
    show ?thesis
      using lt by (simp add: s st1 clone_fields clone_contents clone_old cacheAllocated_def)
  next
    case False
    let ?st = "st\<lparr>upstreamCalls := Suc (upstreamCalls st)\<rparr>"
    from f fetch_miss[OF False, of pd]
    have r: "refresh pd (reply c) (tStore c) ?st = (Inr s, st1)" by simp
    then obtain ms where d: "reply c = Decoded ms"
      by (cases "reply c") (simp_all add: refresh_failed)
    note k = refresh_decoded_fields[OF r[unfolded d]]
    from k(5) have s: "s = \<lparr>arr = Suc (nextAddr st), len = length ms\<rparr>" by simp
    show ?thesis
      using k(6) k(7) by (simp add: s k(2) k(4) cacheAllocated_def)
  qed
  then show "arr s \<noteq> arr (cachedMatch st1)" and "arr s < nextAddr st1"
    and "readSlice st1 s = readSlice st1 (cachedMatch st1)" and "cacheAllocated st1"
    by simp_all
qed

lemma fetch_failed_allocated:
  assumes wf: "cacheAllocated st" and f: "fetchMatches pd c st = (Inl e, st1)"
  shows "cacheAllocated st1"
proof (cases "fresh (tCheck c) st")
  case True
  then show ?thesis using f by (simp add: fetch_hit)
next
  case False
  let ?st = "st\<lparr>upstreamCalls := Suc (upstreamCalls st)\<rparr>"
  from f fetch_miss[OF False, of pd]
  have r: "refresh pd (reply c) (tStore c) ?st = (Inl e, st1)" by simp
  have "st1 = ?st"
  proof (cases "reply c")
    case (Decoded ms)
    with r refresh_decoded_fields(5)[of pd ms "tStore c" ?st "Inl e" st1] show ?thesis by simp
  qed (use r in \<open>simp_all add: refresh_failed\<close>)
  then show ?thesis using wf by (simp add: cacheAllocated_def)
qed

lemma updateSlice_fields:
  "cachedAt (updateSlice f s st) = cachedAt st"
  "cachedMatch (updateSlice f s st) = cachedMatch st"
  "nextAddr (updateSlice f s st) = nextAddr st"
  "upstreamCalls (updateSlice f s st) = upstreamCalls st"
  by (simp_all add: updateSlice_def)

lemma updateSlice_other:
  "arr t \<noteq> arr s \<Longrightarrow> readSlice (updateSlice f s st) t = readSlice st t"
  by (simp add: updateSlice_def readSlice_def)

lemma updateSlice_self:
  "readSlice (updateSlice f s st) s = map f (readSlice st s)"
  by (auto simp: updateSlice_def readSlice_def)

text \<open>
  C8. In a state where the cached array is allocated (the initial state is, and
  \<^verbatim>\<open>loadMatchesWithFavorites\<close> keeps it so), a successful \<^verbatim>\<open>fetchMatches\<close> returns a slice
  of another array than the cached one, holding the same records; writing
  \<^verbatim>\<open>IsFavorite\<close> into the returned records, as \<^verbatim>\<open>loadMatchesWithFavorites\<close> does, leaves the
  stamp, the cached slice and the cached records as \<^verbatim>\<open>fetchMatches\<close> left them. The
  copy is one level deep: the \<^verbatim>\<open>Videos\<close> of a record are shared, and nothing writes them.
\<close>

theorem returns_copy:
  assumes "cacheAllocated st"
  shows "(case fetchMatches lib c st of
            (Inl e, st1) \<Rightarrow> loadMatchesWithFavorites lib cookie c st = (Inl e, st1)
          | (Inr s, st1) \<Rightarrow>
              arr s \<noteq> arr (cachedMatch st1)
              \<and> readSlice st1 s = readSlice st1 (cachedMatch st1)
              \<and> fst (loadMatchesWithFavorites lib cookie c st) = Inr s
              \<and> snapshot (snd (loadMatchesWithFavorites lib cookie c st)) = snapshot st1
              \<and> readSlice (snd (loadMatchesWithFavorites lib cookie c st)) s
                  = map (annotate (getFavorites cookie)) (readSlice st1 s))
       \<and> cacheAllocated (snd (loadMatchesWithFavorites lib cookie c st))"
proof -
  obtain r st1 where f: "fetchMatches lib c st = (r, st1)"
    by (cases "fetchMatches lib c st")
  show ?thesis
  proof (cases r)
    case (Inl e)
    with f fetch_failed_allocated[OF assms, of lib c e st1] show ?thesis
      by (simp add: loadMatchesWithFavorites_def)
  next
    case (Inr s)
    note k = fetch_copy[OF assms f[unfolded Inr]]
    have l: "loadMatchesWithFavorites lib cookie c st
        = (Inr s, updateSlice (annotate (getFavorites cookie)) s st1)"
      by (simp add: loadMatchesWithFavorites_def f Inr)
    have "snapshot (updateSlice (annotate (getFavorites cookie)) s st1) = snapshot st1"
      using k(1) by (simp add: snapshot_def updateSlice_fields updateSlice_other)
    moreover have "cacheAllocated (updateSlice (annotate (getFavorites cookie)) s st1)"
      using k(4) by (simp add: cacheAllocated_def updateSlice_fields)
    ultimately show ?thesis
      using k(1) k(3) by (simp add: f Inr l updateSlice_self)
  qed
qed

theorem returns_copy_witness:
  "map IsFavorite (readSlice
      (snd (loadMatchesWithFavorites asciiLib (Some ''A - B'')
             \<lparr>tCheck = 0, reply = Decoded [decoded ''A - B'' ''L: x'' ''2024-01-03''], tStore = 5\<rparr>
             initState))
      \<lparr>arr = 2, len = 1\<rparr>) = [True]
   \<and> snapshot (snd (loadMatchesWithFavorites asciiLib (Some ''A - B'')
             \<lparr>tCheck = 0, reply = Decoded [decoded ''A - B'' ''L: x'' ''2024-01-03''], tStore = 5\<rparr>
             initState))
     = snapshot (snd (fetchMatches asciiLib
             \<lparr>tCheck = 0, reply = Decoded [decoded ''A - B'' ''L: x'' ''2024-01-03''], tStore = 5\<rparr>
             initState))"
proof -
  let ?c = "\<lparr>tCheck = 0, reply = Decoded [decoded ''A - B'' ''L: x'' ''2024-01-03''], tStore = 5\<rparr>"
  let ?st2 = "snd (loadMatchesWithFavorites asciiLib (Some ''A - B'') ?c initState)"
  have r: "fst (fetchMatches asciiLib ?c initState) = Inr \<lparr>arr = 2, len = 1\<rparr>"
    by code_simp
  then have f: "fetchMatches asciiLib ?c initState
      = (Inr \<lparr>arr = 2, len = 1\<rparr>, snd (fetchMatches asciiLib ?c initState))"
    by (simp add: prod_eq_iff)
  have v: "map IsFavorite (readSlice ?st2 \<lparr>arr = 2, len = 1\<rparr>) = [True]"
    by code_simp
  from returns_copy[OF cacheAllocated_init, where lib = asciiLib and c = ?c
      and cookie = "Some ''A - B''"]
  have "snapshot ?st2 = snapshot (snd (fetchMatches asciiLib ?c initState))"
    by (subst (asm) f) simp
  with v show ?thesis by (rule conjI)
qed

subsection \<open>Concurrent callers\<close>

lemma mutex_inv:
  assumes "reachable pd n calls st0 s"
  shows "(\<forall>i. n \<le> i \<longrightarrow> pcs s i = Idle)
       \<and> (\<forall>i j. busy (pcs s i) \<and> busy (pcs s j) \<longrightarrow> i = j)
       \<and> (cacheMu s \<longleftrightarrow> (\<exists>i. busy (pcs s i)))"
  using assms
proof (induction rule: reachable.induct)
  case reach_start
  then show ?case by (simp add: start_def busy_def)
next
  case (reach_step s s')
  from reach_step.hyps(2) reach_step.IH show ?case
  proof (cases rule: step.cases)
    case (lock i)
    with reach_step.IH show ?thesis by (auto simp: busy_def)
  next
    case (hit i)
    with reach_step.IH show ?thesis by (auto simp: busy_def)
  next
    case (get i)
    with reach_step.IH show ?thesis by (auto simp: busy_def)
  next
    case (answer i)
    with reach_step.IH show ?thesis by (auto simp: busy_def)
  qed
qed

lemma step_hitI:
  assumes "i < n" "pcs s i = Locked" "fresh (tCheck (calls i)) (shared s)"
    and "s' = s\<lparr>shared := snd (cloneMatches (cachedMatch (shared s)) (shared s)),
          cacheMu := False,
          pcs := (pcs s)(i := Returned (Inr (fst (cloneMatches (cachedMatch (shared s)) (shared s)))))\<rparr>"
  shows "step pd n calls s s'"
  unfolding assms(4) using assms(1-3) by (rule step.hit)

lemma step_getI:
  assumes "i < n" "pcs s i = Locked" "\<not> fresh (tCheck (calls i)) (shared s)"
    and "s' = s\<lparr>shared := (shared s)\<lparr>upstreamCalls := Suc (upstreamCalls (shared s))\<rparr>,
          pcs := (pcs s)(i := InFlight)\<rparr>"
  shows "step pd n calls s s'"
  unfolding assms(4) using assms(1-3) by (rule step.get)

lemma step_answerI:
  assumes "i < n" "pcs s i = InFlight"
    and "s' = s\<lparr>shared := snd (refresh pd (reply (calls i)) (tStore (calls i)) (shared s)),
          cacheMu := False,
          pcs := (pcs s)(i := Returned
                   (fst (refresh pd (reply (calls i)) (tStore (calls i)) (shared s))))\<rparr>"
  shows "step pd n calls s s'"
  unfolding assms(3) using assms(1-2) by (rule step.answer)

lemma one_call_reachable:
  assumes r: "reachable pd n calls st0 s" and i: "i < n" "pcs s i = Idle" "\<not> cacheMu s"
  shows "reachable pd n calls st0
           (s\<lparr>shared := snd (fetchMatches pd (calls i) (shared s)),
              cacheMu := False,
              pcs := (pcs s)(i := Returned (fst (fetchMatches pd (calls i) (shared s))))\<rparr>)"
    (is "reachable pd n calls st0 ?goal")
proof -
  let ?s1 = "s\<lparr>cacheMu := True, pcs := (pcs s)(i := Locked)\<rparr>"
  have "step pd n calls s ?s1" using i by (rule step.lock)
  with r have s1: "reachable pd n calls st0 ?s1" by (rule reach_step)
  have l: "pcs ?s1 i = Locked" by simp
  show ?thesis
  proof (cases "fresh (tCheck (calls i)) (shared s)")
    case True
    then have f: "fresh (tCheck (calls i)) (shared ?s1)" by simp
    have "step pd n calls ?s1 ?goal"
      using i(1) l f by (rule step_hitI) (simp add: fetch_hit[OF True])
    with s1 show ?thesis by (rule reach_step)
  next
    case False
    then have f: "\<not> fresh (tCheck (calls i)) (shared ?s1)" by simp
    let ?s2 = "s\<lparr>shared := (shared s)\<lparr>upstreamCalls := Suc (upstreamCalls (shared s))\<rparr>,
          cacheMu := True, pcs := (pcs s)(i := InFlight)\<rparr>"
    have "step pd n calls ?s1 ?s2"
      using i(1) l f by (rule step_getI) simp
    with s1 have s2: "reachable pd n calls st0 ?s2" by (rule reach_step)
    have fl: "pcs ?s2 i = InFlight" by simp
    have "step pd n calls ?s2 ?goal"
      using i(1) fl by (rule step_answerI) (simp add: fetch_miss[OF False])
    with s2 show ?thesis by (rule reach_step)
  qed
qed

lemma refresh_phases:
  assumes r: "reachable pd n calls st0 s"
    and stale: "\<forall>i<n. \<not> fresh (tCheck (calls i)) st0"
    and ok: "\<forall>i<n. \<exists>ms. reply (calls i) = Decoded ms \<and> ms \<noteq> []"
    and ttl: "\<forall>i<n. \<forall>j<n. since (tCheck (calls i)) (tStore (calls j)) < cacheTTL"
  shows "(upstreamCalls (shared s) = upstreamCalls st0
          \<and> cachedAt (shared s) = cachedAt st0 \<and> cachedMatch (shared s) = cachedMatch st0
          \<and> (\<forall>i. pcs s i = Idle \<or> pcs s i = Locked))
       \<or> (upstreamCalls (shared s) = Suc (upstreamCalls st0)
          \<and> cachedAt (shared s) = cachedAt st0 \<and> cachedMatch (shared s) = cachedMatch st0
          \<and> (\<exists>j. pcs s j = InFlight) \<and> (\<forall>i r. pcs s i \<noteq> Returned r))
       \<or> (upstreamCalls (shared s) = Suc (upstreamCalls st0)
          \<and> (\<exists>j<n. cachedAt (shared s) = tStore (calls j))
          \<and> 0 < len (cachedMatch (shared s)) \<and> cacheAllocated (shared s)
          \<and> (\<forall>i. pcs s i \<noteq> InFlight)
          \<and> (\<forall>i r. pcs s i = Returned r \<longrightarrow>
                (\<exists>out. r = Inr out \<and> arr out < nextAddr (shared s)
                   \<and> readSlice (shared s) out = readSlice (shared s) (cachedMatch (shared s)))))"
    (is "?A s \<or> ?B s \<or> ?C s")
  using r
proof (induction rule: reachable.induct)
  case reach_start
  have "?A (start st0)" by (simp add: start_def)
  then show ?case by (rule disjI1)
next
  case (reach_step s s')
  note m = mutex_inv[OF reach_step.hyps(1)]
  from m have uniq: "\<And>i j. busy (pcs s i) \<Longrightarrow> busy (pcs s j) \<Longrightarrow> i = j" by blast
  from m have held: "cacheMu s \<longleftrightarrow> (\<exists>i. busy (pcs s i))" by blast
  from reach_step.hyps(2) show ?case
  proof (cases rule: step.cases)
    case (lock i)
    have sh: "shared s' = shared s" and pc: "pcs s' = (pcs s)(i := Locked)"
      using lock(1) by simp_all
    have nb: "\<not> busy (pcs s k)" for k using held lock(4) by blast
    from reach_step.IH show ?thesis
    proof (elim disjE)
      assume a: "?A s"
      have "?A s'" using a by (simp add: sh pc)
      then show ?thesis by (rule disjI1)
    next
      assume b: "?B s"
      then obtain j where "pcs s j = InFlight" by blast
      then have False using nb[of j] by (simp add: busy_def)
      then show ?thesis ..
    next
      assume c: "?C s"
      have "?C s'"
      proof (intro conjI allI impI)
        show "upstreamCalls (shared s') = Suc (upstreamCalls st0)" using c by (simp add: sh)
        show "\<exists>j<n. cachedAt (shared s') = tStore (calls j)" using c by (simp add: sh)
        show "0 < len (cachedMatch (shared s'))" using c by (simp add: sh)
        show "cacheAllocated (shared s')" using c by (simp add: sh)
        show "pcs s' k \<noteq> InFlight" for k using c by (simp add: pc)
        show "\<exists>out. r = Inr out \<and> arr out < nextAddr (shared s')
                   \<and> readSlice (shared s') out = readSlice (shared s') (cachedMatch (shared s'))"
          if "pcs s' k = Returned r" for k r
        proof -
          from that have "pcs s k = Returned r" by (cases "k = i") (simp_all add: pc)
          with c show ?thesis unfolding sh by blast
        qed
      qed
      then show ?thesis by blast
    qed
  next
    case (hit i)
    have sh: "shared s' = snd (cloneMatches (cachedMatch (shared s)) (shared s))"
      and pc: "pcs s' = (pcs s)(i := Returned (Inr (fst (cloneMatches (cachedMatch (shared s)) (shared s)))))"
      using hit(1) by simp_all
    from reach_step.IH show ?thesis
    proof (elim disjE)
      assume a: "?A s"
      then have "fresh (tCheck (calls i)) st0" using hit(4) by (simp add: fresh_def)
      then have False using stale hit(2) by blast
      then show ?thesis ..
    next
      assume b: "?B s"
      then obtain j where j: "pcs s j = InFlight" by blast
      have "j = i" using j hit(3) by (intro uniq) (simp_all add: busy_def)
      then have False using j hit(3) by simp
      then show ?thesis ..
    next
      assume c: "?C s"
      let ?st = "shared s"
      let ?out = "fst (cloneMatches (cachedMatch ?st) ?st)"
      have al: "arr (cachedMatch ?st) < nextAddr ?st" using c by (simp add: cacheAllocated_def)
      have cached: "readSlice (shared s') (cachedMatch (shared s')) = readSlice ?st (cachedMatch ?st)"
        using al by (simp add: sh clone_fields clone_old)
      have new: "arr ?out < nextAddr (shared s')
          \<and> readSlice (shared s') ?out = readSlice (shared s') (cachedMatch (shared s'))"
        using cached by (simp add: sh clone_fields clone_contents)
      have old: "\<exists>out. r = Inr out \<and> arr out < nextAddr (shared s')
                   \<and> readSlice (shared s') out = readSlice (shared s') (cachedMatch (shared s'))"
        if "pcs s k = Returned r" for k r
      proof -
        from c that obtain out where o: "r = Inr out" "arr out < nextAddr ?st"
          "readSlice ?st out = readSlice ?st (cachedMatch ?st)" by blast
        have "readSlice (shared s') out = readSlice ?st out"
          using o(2) by (simp add: sh clone_old)
        moreover have "arr out < nextAddr (shared s')" using o(2) by (simp add: sh clone_fields)
        ultimately show ?thesis using o(1) o(3) cached by simp
      qed
      have "?C s'"
      proof (intro conjI allI impI)
        show "upstreamCalls (shared s') = Suc (upstreamCalls st0)"
          using c by (simp add: sh clone_fields)
        show "\<exists>j<n. cachedAt (shared s') = tStore (calls j)"
          using c by (simp add: sh clone_fields)
        show "0 < len (cachedMatch (shared s'))"
          using c by (simp add: sh clone_fields)
        show "cacheAllocated (shared s')"
          using al by (simp add: sh clone_fields cacheAllocated_def)
        show "pcs s' k \<noteq> InFlight" for k
          using c by (simp add: pc)
        show "\<exists>out. r = Inr out \<and> arr out < nextAddr (shared s')
                   \<and> readSlice (shared s') out = readSlice (shared s') (cachedMatch (shared s'))"
          if "pcs s' k = Returned r" for k r
        proof (cases "k = i")
          case True
          then have "r = Inr ?out" using that by (simp add: pc)
          then show ?thesis using new by blast
        next
          case False
          then have "pcs s k = Returned r" using that by (simp add: pc)
          then show ?thesis by (rule old)
        qed
      qed
      then show ?thesis by blast
    qed
  next
    case (get i)
    have sh: "shared s' = (shared s)\<lparr>upstreamCalls := Suc (upstreamCalls (shared s))\<rparr>"
      and pc: "pcs s' = (pcs s)(i := InFlight)"
      using get(1) by simp_all
    from reach_step.IH show ?thesis
    proof (elim disjE)
      assume a: "?A s"
      have "?B s'"
      proof (intro conjI allI)
        show "upstreamCalls (shared s') = Suc (upstreamCalls st0)" using a by (simp add: sh)
        show "cachedAt (shared s') = cachedAt st0" using a by (simp add: sh)
        show "cachedMatch (shared s') = cachedMatch st0" using a by (simp add: sh)
        show "\<exists>j. pcs s' j = InFlight" by (rule exI[of _ i]) (simp add: pc)
        show "pcs s' k \<noteq> Returned r" for k r
        proof (cases "k = i")
          case True
          then show ?thesis by (simp add: pc)
        next
          case False
          from a have "pcs s k = Idle \<or> pcs s k = Locked" by blast
          then show ?thesis using False by (auto simp: pc)
        qed
      qed
      then show ?thesis by blast
    next
      assume b: "?B s"
      then obtain j where j: "pcs s j = InFlight" by blast
      have "j = i" using j get(3) by (intro uniq) (simp_all add: busy_def)
      then have False using j get(3) by simp
      then show ?thesis ..
    next
      assume c: "?C s"
      then obtain j where j: "j < n" "cachedAt (shared s) = tStore (calls j)" by blast
      have "since (tCheck (calls i)) (tStore (calls j)) < cacheTTL"
        using ttl get(2) j(1) by blast
      moreover have "0 < len (cachedMatch (shared s))" using c by blast
      ultimately have "fresh (tCheck (calls i)) (shared s)"
        using j(2) by (simp add: fresh_def)
      then have False using get(4) by blast
      then show ?thesis ..
    qed
  next
    case (answer i)
    from ok answer(2) obtain ms where ms: "reply (calls i) = Decoded ms" "ms \<noteq> []" by blast
    let ?st = "shared s"
    obtain r st' where e: "refresh pd (Decoded ms) (tStore (calls i)) ?st = (r, st')"
      by (cases "refresh pd (Decoded ms) (tStore (calls i)) ?st")
    note k = refresh_decoded_fields[OF e]
    have sh: "shared s' = st'" and pc: "pcs s' = (pcs s)(i := Returned r)"
      using answer(1) by (simp_all add: ms e)
    from reach_step.IH show ?thesis
    proof (elim disjE)
      assume a: "?A s"
      then have "pcs s i = Idle \<or> pcs s i = Locked" by blast
      then have False using answer(3) by auto
      then show ?thesis ..
    next
      assume b: "?B s"
      have "?C s'"
      proof (intro conjI allI impI)
        show "upstreamCalls (shared s') = Suc (upstreamCalls st0)"
          using b k(3) by (simp add: sh)
        show "\<exists>j<n. cachedAt (shared s') = tStore (calls j)"
          using k(1) answer(2) by (auto simp: sh)
        show "0 < len (cachedMatch (shared s'))"
          using k(2) ms(2) by (simp add: sh)
        show "cacheAllocated (shared s')"
          using k(2) k(4) by (simp add: sh cacheAllocated_def)
        show "pcs s' j \<noteq> InFlight" for j
        proof (cases "j = i")
          case True
          then show ?thesis by (simp add: pc)
        next
          case False
          have "pcs s j \<noteq> InFlight"
          proof
            assume "pcs s j = InFlight"
            then have "j = i" using answer(3) by (intro uniq) (simp_all add: busy_def)
            with False show False ..
          qed
          then show ?thesis using False by (simp add: pc)
        qed
        show "\<exists>out. r' = Inr out \<and> arr out < nextAddr (shared s')
                   \<and> readSlice (shared s') out = readSlice (shared s') (cachedMatch (shared s'))"
          if "pcs s' j = Returned r'" for j r'
        proof -
          have "j = i"
          proof (rule ccontr)
            assume "j \<noteq> i"
            then have "pcs s j = Returned r'" using that by (simp add: pc)
            with b show False by blast
          qed
          then have "r' = r" using that by (simp add: pc)
          then show ?thesis using k(5) k(6) k(7) k(4) by (simp add: sh)
        qed
      qed
      then show ?thesis by blast
    next
      assume c: "?C s"
      then have "pcs s i \<noteq> InFlight" by blast
      then have False using answer(3) by blast
      then show ?thesis ..
    qed
  qed
qed

lemma runAlone_reachable:
  assumes "reachable pd n calls st0 s" and "i < n" and "pcs s i = Idle" and "\<not> cacheMu s"
  shows "reachable pd n calls st0 (runAlone pd calls i s)"
  unfolding runAlone_def using assms by (rule one_call_reachable)

text \<open>
  C9, as the code has it. In every state that \<open>n\<close> concurrent calls can reach, at most
  one caller is between \<^verbatim>\<open>Lock\<close> and \<^verbatim>\<open>Unlock\<close>, so no two upstream calls are in flight
  at once, and the mutex is held exactly while some caller is. When the cache is not
  fresh for any of the callers, every upstream answer is a successful one with at
  least one record and every caller tests the age of the cache within the TTL of
  every stamp, then once all callers have returned exactly one upstream call has been
  made and every caller holds a slice with the records of the cached snapshot. A
  failed refresh is not shared: the next caller finds the cache as it was and calls
  the upstream itself.
\<close>

theorem serialized_refresh:
  assumes "reachable lib n calls st0 s"
  shows "(\<forall>i j. busy (pcs s i) \<and> busy (pcs s j) \<longrightarrow> i = j)
       \<and> (\<forall>i j. pcs s i = InFlight \<and> pcs s j = InFlight \<longrightarrow> i = j)
       \<and> (cacheMu s \<longleftrightarrow> (\<exists>i. busy (pcs s i)))
       \<and> ((\<forall>i<n. \<not> fresh (tCheck (calls i)) st0)
            \<and> (\<forall>i<n. \<exists>ms. reply (calls i) = Decoded ms \<and> ms \<noteq> [])
            \<and> (\<forall>i<n. \<forall>j<n. since (tCheck (calls i)) (tStore (calls j)) < cacheTTL)
            \<and> 0 < n \<and> (\<forall>i<n. \<exists>r. pcs s i = Returned r)
          \<longrightarrow> upstreamCalls (shared s) = Suc (upstreamCalls st0)
              \<and> (\<forall>i<n. \<exists>out. pcs s i = Returned (Inr out)
                     \<and> readSlice (shared s) out = readSlice (shared s) (cachedMatch (shared s))))"
proof -
  note m = mutex_inv[OF assms]
  from m have 1: "\<forall>i j. busy (pcs s i) \<and> busy (pcs s j) \<longrightarrow> i = j" by blast
  then have 2: "\<forall>i j. pcs s i = InFlight \<and> pcs s j = InFlight \<longrightarrow> i = j"
    by (simp add: busy_def)
  from m have 3: "cacheMu s \<longleftrightarrow> (\<exists>i. busy (pcs s i))" by blast
  have 4: "upstreamCalls (shared s) = Suc (upstreamCalls st0)
              \<and> (\<forall>i<n. \<exists>out. pcs s i = Returned (Inr out)
                     \<and> readSlice (shared s) out = readSlice (shared s) (cachedMatch (shared s)))"
    if stale: "\<forall>i<n. \<not> fresh (tCheck (calls i)) st0"
      and ok: "\<forall>i<n. \<exists>ms. reply (calls i) = Decoded ms \<and> ms \<noteq> []"
      and ttl: "\<forall>i<n. \<forall>j<n. since (tCheck (calls i)) (tStore (calls j)) < cacheTTL"
      and n: "0 < n" and fin: "\<forall>i<n. \<exists>r. pcs s i = Returned r"
  proof -
    from fin n obtain r0 where r0: "pcs s 0 = Returned r0" by blast
    from refresh_phases[OF assms stale ok ttl]
    have c: "upstreamCalls (shared s) = Suc (upstreamCalls st0)
          \<and> (\<forall>i r. pcs s i = Returned r \<longrightarrow>
                (\<exists>out. r = Inr out \<and> arr out < nextAddr (shared s)
                   \<and> readSlice (shared s) out = readSlice (shared s) (cachedMatch (shared s))))"
    proof (elim disjE)
      assume "upstreamCalls (shared s) = upstreamCalls st0
          \<and> cachedAt (shared s) = cachedAt st0 \<and> cachedMatch (shared s) = cachedMatch st0
          \<and> (\<forall>i. pcs s i = Idle \<or> pcs s i = Locked)"
      then have "pcs s 0 = Idle \<or> pcs s 0 = Locked" by blast
      with r0 have False by auto
      then show ?thesis ..
    next
      assume "upstreamCalls (shared s) = Suc (upstreamCalls st0)
          \<and> cachedAt (shared s) = cachedAt st0 \<and> cachedMatch (shared s) = cachedMatch st0
          \<and> (\<exists>j. pcs s j = InFlight) \<and> (\<forall>i r. pcs s i \<noteq> Returned r)"
      with r0 have False by blast
      then show ?thesis ..
    next
      assume "upstreamCalls (shared s) = Suc (upstreamCalls st0)
          \<and> (\<exists>j<n. cachedAt (shared s) = tStore (calls j))
          \<and> 0 < len (cachedMatch (shared s)) \<and> cacheAllocated (shared s)
          \<and> (\<forall>i. pcs s i \<noteq> InFlight)
          \<and> (\<forall>i r. pcs s i = Returned r \<longrightarrow>
                (\<exists>out. r = Inr out \<and> arr out < nextAddr (shared s)
                   \<and> readSlice (shared s) out = readSlice (shared s) (cachedMatch (shared s))))"
      then show ?thesis by blast
    qed
    have "\<exists>out. pcs s i = Returned (Inr out)
                     \<and> readSlice (shared s) out = readSlice (shared s) (cachedMatch (shared s))"
      if "i < n" for i
    proof -
      from fin that obtain r where r: "pcs s i = Returned r" by blast
      with c obtain out where "r = Inr out"
        "readSlice (shared s) out = readSlice (shared s) (cachedMatch (shared s))" by blast
      with r show ?thesis by blast
    qed
    with c show ?thesis by blast
  qed
  from 1 2 3 4 show ?thesis by blast
qed

theorem serialized_refresh_witness:
  "upstreamCalls (shared (runAlone asciiLib succeeding 1
      (runAlone asciiLib succeeding 0 (start initState)))) = 1
   \<and> \<not> cacheMu (runAlone asciiLib succeeding 1
      (runAlone asciiLib succeeding 0 (start initState)))"
proof -
  let ?s1 = "runAlone asciiLib succeeding 0 (start initState)"
  let ?s2 = "runAlone asciiLib succeeding 1 ?s1"
  have r1: "reachable asciiLib 2 succeeding initState ?s1"
    by (rule runAlone_reachable[OF reach_start]) (simp_all add: start_def)
  have r2: "reachable asciiLib 2 succeeding initState ?s2"
    by (rule runAlone_reachable[OF r1]) (simp_all add: runAlone_def start_def)
  have stale: "\<forall>i<2. \<not> fresh (tCheck (succeeding i)) initState"
    by (simp add: fresh_def initState_def)
  have ok: "\<forall>i<2. \<exists>ms. reply (succeeding i) = Decoded ms \<and> ms \<noteq> []"
    by (simp add: succeeding_def)
  have ttl: "\<forall>i<2. \<forall>j<2. since (tCheck (succeeding i)) (tStore (succeeding j)) < cacheTTL"
    by (auto simp: less_2_cases_iff succeeding_def since_def cacheTTL_def minInt_def maxInt_def)
  have fin: "\<forall>i<2. \<exists>r. pcs ?s2 i = Returned r"
    by (auto simp: less_2_cases_iff runAlone_def)
  have n: "(0::nat) < 2" by simp
  note inst = serialized_refresh[OF r2]
  from inst stale ok ttl n fin
  have "upstreamCalls (shared ?s2) = Suc (upstreamCalls initState)" by blast
  moreover from inst have "cacheMu ?s2 \<longleftrightarrow> (\<exists>i. busy (pcs ?s2 i))" by blast
  moreover have "\<not> (\<exists>i. busy (pcs ?s2 i))"
    by (simp add: runAlone_def start_def busy_def)
  ultimately show ?thesis by (simp add: initState_def)
qed

theorem failed_refresh_repeated_counterexample:
  "reachable asciiLib 2 failing initState
     (runAlone asciiLib failing 1 (runAlone asciiLib failing 0 (start initState)))
   \<and> \<not> fresh (tCheck (failing 0)) initState
   \<and> \<not> fresh (tCheck (failing 1)) initState
   \<and> pcs (runAlone asciiLib failing 1 (runAlone asciiLib failing 0 (start initState))) 0
       = Returned (Inl UpstreamUnreachable)
   \<and> pcs (runAlone asciiLib failing 1 (runAlone asciiLib failing 0 (start initState))) 1
       = Returned (Inl UpstreamUnreachable)
   \<and> upstreamCalls (shared
       (runAlone asciiLib failing 1 (runAlone asciiLib failing 0 (start initState)))) = 2"
proof -
  let ?s1 = "runAlone asciiLib failing 0 (start initState)"
  let ?s2 = "runAlone asciiLib failing 1 ?s1"
  have r1: "reachable asciiLib 2 failing initState ?s1"
    by (rule runAlone_reachable[OF reach_start]) (simp_all add: start_def)
  have r2: "reachable asciiLib 2 failing initState ?s2"
    by (rule runAlone_reachable[OF r1]) (simp_all add: runAlone_def start_def)
  have f: "\<not> fresh (tCheck (failing 0)) initState" "\<not> fresh (tCheck (failing 1)) initState"
    by (simp_all add: fresh_def initState_def)
  have p0: "pcs ?s2 0 = Returned (Inl UpstreamUnreachable)"
    by code_simp
  have p1: "pcs ?s2 1 = Returned (Inl UpstreamUnreachable)"
    by code_simp
  have u: "upstreamCalls (shared ?s2) = 2"
    by code_simp
  from r2 f p0 p1 u show ?thesis by blast
qed

subsection \<open>The string functions meet their descriptions\<close>

text \<open>
  \<^verbatim>\<open>HasPrefix\<close> and \<^verbatim>\<open>Contains\<close> are the prefix and the substring relation; splitting at a
  separator and joining with it gives the string back, and no piece contains the
  separator (\<open>pieces_clean\<close>); the fields of a string are non-empty and free of white
  space.
\<close>

lemma HasPrefix_iff: "HasPrefix s p \<longleftrightarrow> (\<exists>r. s = p @ r)"
  by (induction s p rule: HasPrefix.induct) auto

lemma Contains_iff: "Contains s sub \<longleftrightarrow> (\<exists>before after. s = before @ sub @ after)"
proof (induction s)
  case Nil
  then show ?case by auto
next
  case (Cons c cs)
  show ?case
  proof
    assume "Contains (c # cs) sub"
    then consider "HasPrefix (c # cs) sub" | "Contains cs sub" by auto
    then show "\<exists>before after. c # cs = before @ sub @ after"
    proof cases
      case 1
      then obtain r where "c # cs = sub @ r" by (auto simp: HasPrefix_iff)
      then have "c # cs = [] @ sub @ r" by simp
      then show ?thesis by blast
    next
      case 2
      then obtain b a where "cs = b @ sub @ a" using Cons.IH by blast
      then have "c # cs = (c # b) @ sub @ a" by simp
      then show ?thesis by blast
    qed
  next
    assume "\<exists>before after. c # cs = before @ sub @ after"
    then obtain b a where e: "c # cs = b @ sub @ a" by blast
    show "Contains (c # cs) sub"
    proof (cases b)
      case Nil
      then have "HasPrefix (c # cs) sub" using e by (auto simp: HasPrefix_iff)
      then show ?thesis by simp
    next
      case (Cons x b')
      then have "cs = b' @ sub @ a" using e by simp
      then have "Contains cs sub" using Cons.IH by blast
      then show ?thesis by simp
    qed
  qed
qed

lemma Join_pieces: "Join (pieces (\<lambda>c. c = sep) s) [sep] = s"
proof (induction s)
  case Nil
  then show ?case by simp
next
  case (Cons c cs)
  obtain p ps where e: "pieces (\<lambda>c. c = sep) cs = p # ps"
    using pieces_not_Nil[of "\<lambda>c. c = sep" cs] by (cases "pieces (\<lambda>c. c = sep) cs") auto
  show ?case
    using Cons.IH by (cases ps) (auto simp: e)
qed

lemma Join_Split: "Join (Split s sep) [sep] = s"
  by (simp add: Split_def Join_pieces)

lemma Fields_words: "\<forall>w\<in>set (Fields s). w \<noteq> [] \<and> (\<forall>c\<in>set w. \<not> isSpace c)"
  using pieces_clean[of isSpace s] by (auto simp: Fields_def)

end
